theory Spec2Isabelle
  imports Complex_Main "HOL-Library.Multiset" "HOL-Library.Sublist"
begin

section \<open>Errors and the array kernel\<close>

text \<open>
  The exceptions that the modelled Python code can raise. \<open>ValueError\<close> is what numpy
  raises when two operands cannot be broadcast together (a shape mismatch);
  \<open>RecursionError\<close> is raised when the interpreter's bound on nested calls is exceeded.
\<close>

datatype error = KeyError | ValueError | RecursionError | ZeroDivisionError | IndexError

text \<open>One-dimensional numeric arrays, over exact real arithmetic.\<close>

type_synonym ndarray = "real list"

text \<open>
  numpy's in-place binary operators \<open>target op= operand\<close> on one-dimensional arrays. The
  result keeps the shape of \<open>target\<close>: the operand must have the same length, or length
  one (it is then broadcast over the whole target); anything else raises.
\<close>

definition np_inplace :: "(real \<Rightarrow> real \<Rightarrow> real) \<Rightarrow> ndarray \<Rightarrow> ndarray \<Rightarrow> error + ndarray" where
  "np_inplace f target operand =
     (if length operand = length target then Inr (map2 f target operand)
      else if length operand = 1 then Inr (map (\<lambda>x. f x (hd operand)) target)
      else Inl ValueError)"

definition np_iadd :: "ndarray \<Rightarrow> ndarray \<Rightarrow> error + ndarray" where
  "np_iadd = np_inplace (+)"

definition np_isub :: "ndarray \<Rightarrow> ndarray \<Rightarrow> error + ndarray" where
  "np_isub = np_inplace (-)"

text \<open>\<open>scalar * array\<close>.\<close>

definition np_scale :: "real \<Rightarrow> ndarray \<Rightarrow> ndarray" where
  "np_scale c xs = map ((*) c) xs"

section \<open>The parameter server\<close>

text \<open>
  Arrays are objects: the dictionary \<open>self.params\<close> holds references to them, and
  \<open>self.params[key] -= ...\<close> changes the referenced array in place. The object store is
  a list of arrays, an address is an index into it, and allocation appends.
\<close>

type_synonym addr = nat
type_synonym heap = "ndarray list"

text \<open>A dictionary from parameter names to array references, in insertion order.\<close>

type_synonym param_dict = "(string \<times> addr) list"

record ParameterServer =
  params :: param_dict
  version :: int
  update_count :: int

text \<open>
  \<open>{k: np.zeros(shape) for k, shape in param_shape.items()}\<close>: one fresh array of zeros
  per entry; a shape \<open>(n,)\<close> is given by \<open>n\<close>.
\<close>

fun zeros_dict :: "(string \<times> nat) list \<Rightarrow> heap \<Rightarrow> param_dict \<times> heap" where
  "zeros_dict [] h = ([], h)"
| "zeros_dict ((k, n) # rest) h =
     (let (d, h') = zeros_dict rest (h @ [replicate n 0]) in ((k, length h) # d, h'))"

definition ParameterServer_init :: "(string \<times> nat) list \<Rightarrow> heap \<Rightarrow> heap \<times> ParameterServer" where
  "ParameterServer_init param_shape h =
     (let (d, h') = zeros_dict param_shape h
      in (h', \<lparr>params = d, version = 0, update_count = 0\<rparr>))"

text \<open>
  \<open>return self.params.copy(), self.version\<close>: \<open>dict.copy\<close> builds a new dictionary with
  the same values, that is the same array references; no array is duplicated and the
  store is untouched.
\<close>

definition get_parameters :: "heap \<times> ParameterServer \<Rightarrow> param_dict \<times> int" where
  "get_parameters st = (params (snd st), version (snd st))"

text \<open>What a holder of a dictionary of references reads through it in a given store.\<close>

definition read_arrays :: "heap \<Rightarrow> param_dict \<Rightarrow> (string \<times> ndarray) list" where
  "read_arrays h d = map (\<lambda>(k, a). (k, h ! a)) d"

text \<open>
  The loop \<open>for key in self.params: self.params[key] -= lr * gradients[key]\<close>. A missing
  key and a shape mismatch raise; the arrays updated by earlier iterations stay
  updated, so the store at the point of failure is returned with the error.
\<close>

fun update_keys :: "param_dict \<Rightarrow> (string \<rightharpoonup> ndarray) \<Rightarrow> real \<Rightarrow> heap \<Rightarrow> heap \<times> error option" where
  "update_keys [] gradients lr h = (h, None)"
| "update_keys ((key, a) # rest) gradients lr h =
     (case gradients key of
        None \<Rightarrow> (h, Some KeyError)
      | Some g \<Rightarrow>
          (case np_isub (h ! a) (np_scale lr g) of
             Inl e \<Rightarrow> (h, Some e)
           | Inr v \<Rightarrow> update_keys rest gradients lr (h[a := v])))"

definition update :: "(string \<rightharpoonup> ndarray) \<Rightarrow> real \<Rightarrow> heap \<times> ParameterServer
    \<Rightarrow> (heap \<times> ParameterServer) \<times> error option" where
  "update gradients lr st =
     (case update_keys (params (snd st)) gradients lr (fst st) of
        (h', Some e) \<Rightarrow> ((h', snd st), Some e)
      | (h', None) \<Rightarrow>
          ((h', (snd st)\<lparr>version := version (snd st) + 1,
                         update_count := update_count (snd st) + 1\<rparr>), None))"

definition get_stats :: "heap \<times> ParameterServer \<Rightarrow> int \<times> int" where
  "get_stats st = (version (snd st), update_count (snd st))"

text \<open>
  A sequence of \<open>update\<close> calls, each with its gradients and learning rate, in the
  order in which the server executes them; an exception ends the run.
\<close>

fun updates :: "((string \<rightharpoonup> ndarray) \<times> real) list \<Rightarrow> heap \<times> ParameterServer
    \<Rightarrow> (heap \<times> ParameterServer) \<times> error option" where
  "updates [] st = (st, None)"
| "updates ((g, lr) # rest) st =
     (case update g lr st of
        (st', Some e) \<Rightarrow> (st', Some e)
      | (st', None) \<Rightarrow> updates rest st')"

section \<open>The message fabric\<close>

text \<open>
  A message is the pair \<open>(source_rank, data)\<close> that \<open>send\<close> puts into a queue. The
  simulator owns one queue per rank, in a dictionary keyed by the ranks
  \<open>0, ..., world_size - 1\<close>; a queue is the list of its messages, oldest first.
\<close>

type_synonym 'a message = "int \<times> 'a"

record 'a DistributedSimulator =
  world_size :: int
  queues :: "int \<rightharpoonup> 'a message list"

definition DistributedSimulator_init :: "int \<Rightarrow> 'a DistributedSimulator" where
  "DistributedSimulator_init n =
     \<lparr>world_size = n, queues = (\<lambda>i. if 0 \<le> i \<and> i < n then Some [] else None)\<rparr>"

text \<open>
  How a call on the simulator ends: it returns a value, it raises, or it is suspended in
  \<open>Queue.get\<close> on an empty queue. Each case carries the simulator as the call left it.
\<close>

datatype ('a, 's) outcome = Returns 'a 's | Raises error 's | Blocks 's

text \<open>The simulator with the queue of one rank replaced.\<close>

definition set_queue :: "int \<Rightarrow> 'a message list \<Rightarrow> 'a DistributedSimulator \<Rightarrow> 'a DistributedSimulator" where
  "set_queue rank q sim = sim\<lparr>queues := (queues sim)(rank \<mapsto> q)\<rparr>"

text \<open>\<open>Queue.put\<close> on the queue of a rank that has one: the message goes to the tail.\<close>

definition put :: "int \<Rightarrow> 'a message \<Rightarrow> 'a DistributedSimulator \<Rightarrow> 'a DistributedSimulator" where
  "put rank m sim = set_queue rank (the (queues sim rank) @ [m]) sim"

definition send :: "'a \<Rightarrow> int \<Rightarrow> int \<Rightarrow> 'a DistributedSimulator \<Rightarrow> (unit, 'a DistributedSimulator) outcome" where
  "send data source_rank dest_rank sim =
     (case queues sim dest_rank of
        None \<Rightarrow> Raises KeyError sim
      | Some q \<Rightarrow> Returns () (put dest_rank (source_rank, data) sim))"

text \<open>
  \<open>receive\<close> takes the oldest message; when a source is asked for (\<open>source_rank \<noteq> -1\<close>)
  and the message is from another one, it puts the message back, at the tail, and calls
  itself. The first argument is the number of nested calls the interpreter still allows:
  the call that would exceed it raises \<open>RecursionError\<close>.
\<close>

fun receive :: "nat \<Rightarrow> int \<Rightarrow> int \<Rightarrow> 'a DistributedSimulator \<Rightarrow> ('a, 'a DistributedSimulator) outcome" where
  "receive limit rank source_rank sim =
     (case queues sim rank of
        None \<Rightarrow> Raises KeyError sim
      | Some [] \<Rightarrow> Blocks sim
      | Some ((source, data) # q) \<Rightarrow>
          (let sim1 = set_queue rank q sim
           in if source_rank \<noteq> -1 \<and> source \<noteq> source_rank
              then (let sim2 = put rank (source, data) sim1
                    in case limit of
                         0 \<Rightarrow> Raises RecursionError sim2
                       | Suc l \<Rightarrow> receive l rank source_rank sim2)
              else Returns data sim1))"

declare receive.simps [simp del]

text \<open>The first loop of the root in \<open>all_reduce_sum\<close>: \<open>for r in range(1, world_size)\<close>.\<close>

fun gather_loop :: "nat \<Rightarrow> int list \<Rightarrow> ndarray \<Rightarrow> ndarray DistributedSimulator
    \<Rightarrow> (ndarray, ndarray DistributedSimulator) outcome" where
  "gather_loop limit [] tot sim = Returns tot sim"
| "gather_loop limit (r # rs) tot sim =
     (case receive limit 0 r sim of
        Returns data sim1 \<Rightarrow>
          (case np_iadd tot data of
             Inl e \<Rightarrow> Raises e sim1
           | Inr tot1 \<Rightarrow> gather_loop limit rs tot1 sim1)
      | Raises e sim1 \<Rightarrow> Raises e sim1
      | Blocks sim1 \<Rightarrow> Blocks sim1)"

text \<open>The second loop of the root: \<open>self.send(total, 0, r)\<close> for the same ranks.\<close>

fun scatter_loop :: "int list \<Rightarrow> 'a \<Rightarrow> 'a DistributedSimulator \<Rightarrow> (unit, 'a DistributedSimulator) outcome" where
  "scatter_loop [] tot sim = Returns () sim"
| "scatter_loop (r # rs) tot sim =
     (case send tot 0 r sim of
        Returns u sim1 \<Rightarrow> scatter_loop rs tot sim1
      | Raises e sim1 \<Rightarrow> Raises e sim1
      | Blocks sim1 \<Rightarrow> Blocks sim1)"

definition all_reduce_sum :: "nat \<Rightarrow> ndarray \<Rightarrow> int \<Rightarrow> ndarray DistributedSimulator
    \<Rightarrow> (ndarray, ndarray DistributedSimulator) outcome" where
  "all_reduce_sum limit local_data rank sim =
     (if rank = 0 then
        (case gather_loop limit [1..world_size sim - 1] local_data sim of
           Returns tot sim1 \<Rightarrow>
             (case scatter_loop [1..world_size sim - 1] tot sim1 of
                Returns u sim2 \<Rightarrow> Returns tot sim2
              | Raises e sim2 \<Rightarrow> Raises e sim2
              | Blocks sim2 \<Rightarrow> Blocks sim2)
         | Raises e sim1 \<Rightarrow> Raises e sim1
         | Blocks sim1 \<Rightarrow> Blocks sim1)
      else
        (case send local_data rank 0 sim of
           Returns u sim1 \<Rightarrow> receive limit rank 0 sim1
         | Raises e sim1 \<Rightarrow> Raises e sim1
         | Blocks sim1 \<Rightarrow> Blocks sim1))"

text \<open>
  A client of one mailbox: the calls \<open>send(data, source_rank, dest)\<close> and
  \<open>receive(dest, source_rank)\<close> made on the mailbox of \<open>dest\<close>, in the order in which
  they are executed. \<open>run_calls\<close> executes them and logs, for each \<open>receive\<close> that
  returns, the source asked for and the data returned; a call that does not return ends
  the run.
\<close>

datatype 'a call = Send 'a int | Receive int

fun run_calls :: "nat \<Rightarrow> int \<Rightarrow> 'a call list \<Rightarrow> 'a DistributedSimulator \<Rightarrow> (int \<times> 'a) list" where
  "run_calls limit dest [] sim = []"
| "run_calls limit dest (Send data source_rank # cs) sim =
     (case send data source_rank dest sim of
        Returns u sim1 \<Rightarrow> run_calls limit dest cs sim1
      | Raises e sim1 \<Rightarrow> []
      | Blocks sim1 \<Rightarrow> [])"
| "run_calls limit dest (Receive source_rank # cs) sim =
     (case receive limit dest source_rank sim of
        Returns data sim1 \<Rightarrow> (source_rank, data) # run_calls limit dest cs sim1
      | Raises e sim1 \<Rightarrow> []
      | Blocks sim1 \<Rightarrow> [])"

text \<open>The data of the messages from one source: in a queue, and among the calls.\<close>

definition data_from :: "int \<Rightarrow> 'a message list \<Rightarrow> 'a list" where
  "data_from X q = map snd (filter (\<lambda>m. fst m = X) q)"

fun sent_from :: "int \<Rightarrow> 'a call list \<Rightarrow> 'a list" where
  "sent_from X [] = []"
| "sent_from X (Send data source_rank # cs) =
     (if source_rank = X then data # sent_from X cs else sent_from X cs)"
| "sent_from X (Receive source_rank # cs) = sent_from X cs"

section \<open>Federated averaging\<close>

text \<open>
  numpy's binary \<open>a + b\<close> on one-dimensional arrays: equal lengths, or one operand of
  length one that is broadcast over the other.
\<close>

definition np_add :: "ndarray \<Rightarrow> ndarray \<Rightarrow> error + ndarray" where
  "np_add a b =
     (if length a = length b then Inr (map2 (+) a b)
      else if length b = 1 then Inr (map (\<lambda>x. x + hd b) a)
      else if length a = 1 then Inr (map (\<lambda>y. hd a + y) b)
      else Inl ValueError)"

text \<open>
  Python's \<open>sum\<close> over arrays: it starts from the integer \<open>0\<close> (the accumulator
  \<open>None\<close>), and \<open>0 + x\<close> is \<open>x\<close>.
\<close>

fun py_sum :: "ndarray option \<Rightarrow> ndarray list \<Rightarrow> error + ndarray option" where
  "py_sum acc [] = Inr acc"
| "py_sum None (x # xs) = py_sum (Some x) xs"
| "py_sum (Some a) (x # xs) =
     (case np_add a x of Inl e \<Rightarrow> Inl e | Inr s \<Rightarrow> py_sum (Some s) xs)"

text \<open>
  The aggregation of a round, from the sample counts and the models \<open>(W, b)\<close> that the
  clients return; the two lists are filled together, one entry per client. Without a
  client the sums are the integer \<open>0\<close> and \<open>0 / 0\<close> raises; a division of floats by a
  zero total gives no number in the source either, and the model reports both as
  \<open>ZeroDivisionError\<close>.
\<close>

definition aggregate :: "int list \<Rightarrow> (ndarray \<times> real) list \<Rightarrow> error + (ndarray \<times> real)" where
  "aggregate client_weights client_models =
     (let total_samples = sum_list client_weights
      in case py_sum None (map (\<lambda>(w, model). np_scale (of_int w) (fst model))
                               (zip client_weights client_models)) of
           Inl e \<Rightarrow> Inl e
         | Inr None \<Rightarrow> Inl ZeroDivisionError
         | Inr (Some sum_W) \<Rightarrow>
             if total_samples = 0 then Inl ZeroDivisionError
             else Inr (map (\<lambda>x. x / of_int total_samples) sum_W,
                       sum_list (map (\<lambda>(w, model). of_int w * snd model)
                                     (zip client_weights client_models))
                         / of_int total_samples))"

text \<open>
  One communication round: every client starts from the global model, trains on its own
  data (the numeric kernel \<open>local_training\<close>, a parameter of the model), and returns
  its model with the number of its samples.
\<close>

definition federated_round :: "('d \<Rightarrow> ndarray \<times> real \<Rightarrow> ndarray \<times> real) \<Rightarrow> ('d \<Rightarrow> int)
    \<Rightarrow> 'd list \<Rightarrow> ndarray \<times> real \<Rightarrow> error + (ndarray \<times> real)" where
  "federated_round local_training n_samples client_data global_model =
     (let client_models = map (\<lambda>d. local_training d global_model) client_data;
          client_weights = map n_samples client_data
      in aggregate client_weights client_models)"

text \<open>
  The weighted mean as the specification writes it:
  \<open>\<Sum>(weight\<^sub>i \<cdot> params\<^sub>i) / \<Sum>(weight\<^sub>i)\<close>, for one coordinate.
\<close>

definition weighted_mean :: "int list \<Rightarrow> real list \<Rightarrow> real" where
  "weighted_mean ws xs =
     (\<Sum>i<length ws. of_int (ws ! i) * xs ! i) / (\<Sum>i<length ws. of_int (ws ! i))"

section \<open>Data-parallel training\<close>

text \<open>
  The parameters of a worker's network; the two-dimensional arrays are kept as the list
  of their entries.
\<close>

record SimpleNeuralNet =
  W1 :: ndarray
  b1 :: ndarray
  W2 :: ndarray
  b2 :: ndarray

text \<open>The dictionary that \<open>backward\<close> returns, with the same four keys.\<close>

record grads_dict =
  g_W1 :: ndarray
  g_b1 :: ndarray
  g_W2 :: ndarray
  g_b2 :: ndarray

text \<open>
  numpy's global random generator: once seeded, the sequence of its standard-normal
  draws is fixed (\<open>rng\<close>), and the state is the number of draws made so far.
  \<open>np.random.randn\<close> for an array of \<open>n\<close> entries takes the next \<open>n\<close> draws.
\<close>

definition randn :: "(nat \<Rightarrow> real) \<Rightarrow> nat \<Rightarrow> nat \<Rightarrow> ndarray \<times> nat" where
  "randn rng n drawn = (map rng [drawn..<drawn + n], drawn + n)"

definition SimpleNeuralNet_init :: "nat \<Rightarrow> nat \<Rightarrow> nat \<Rightarrow> (nat \<Rightarrow> real) \<Rightarrow> nat \<Rightarrow> SimpleNeuralNet \<times> nat" where
  "SimpleNeuralNet_init input_dim hidden_dim output_dim rng drawn =
     (let (w1, drawn1) = randn rng (input_dim * hidden_dim) drawn;
          (w2, drawn2) = randn rng (hidden_dim * output_dim) drawn1
      in (\<lparr>W1 = map (\<lambda>x. x * 0.1) w1, b1 = replicate hidden_dim 0,
           W2 = map (\<lambda>x. x * 0.1) w2, b2 = replicate output_dim 0\<rparr>, drawn2))"

text \<open>\<open>models = [SimpleNeuralNet(n_features, 20, 1) for _ in range(world_size)]\<close>.\<close>

fun make_models :: "nat \<Rightarrow> nat \<Rightarrow> nat \<Rightarrow> nat \<Rightarrow> (nat \<Rightarrow> real) \<Rightarrow> nat \<Rightarrow> SimpleNeuralNet list \<times> nat" where
  "make_models 0 input_dim hidden_dim output_dim rng drawn = ([], drawn)"
| "make_models (Suc k) input_dim hidden_dim output_dim rng drawn =
     (let (m, drawn1) = SimpleNeuralNet_init input_dim hidden_dim output_dim rng drawn;
          (ms, drawn2) = make_models k input_dim hidden_dim output_dim rng drawn1
      in (m # ms, drawn2))"

text \<open>
  \<open>np.mean(arrays, axis=0)\<close>: the elementwise mean of arrays of one shape; a ragged or
  empty list has no such mean.
\<close>

definition np_mean :: "ndarray list \<Rightarrow> error + ndarray" where
  "np_mean arrays =
     (case arrays of
        [] \<Rightarrow> Inl ValueError
      | a # rest \<Rightarrow>
          if \<forall>x\<in>set rest. length x = length a
          then Inr (map (\<lambda>j. (\<Sum>x\<leftarrow>arrays. x ! j) / real (length arrays)) [0..<length a])
          else Inl ValueError)"

definition apply_gradients :: "SimpleNeuralNet \<Rightarrow> grads_dict \<Rightarrow> real \<Rightarrow> error + SimpleNeuralNet" where
  "apply_gradients net g lr =
     (case np_isub (W1 net) (np_scale lr (g_W1 g)) of Inl e \<Rightarrow> Inl e | Inr w1 \<Rightarrow>
      case np_isub (b1 net) (np_scale lr (g_b1 g)) of Inl e \<Rightarrow> Inl e | Inr c1 \<Rightarrow>
      case np_isub (W2 net) (np_scale lr (g_W2 g)) of Inl e \<Rightarrow> Inl e | Inr w2 \<Rightarrow>
      case np_isub (b2 net) (np_scale lr (g_b2 g)) of Inl e \<Rightarrow> Inl e | Inr c2 \<Rightarrow>
        Inr \<lparr>W1 = w1, b1 = c1, W2 = w2, b2 = c2\<rparr>)"

text \<open>\<open>for model in models: model.apply_gradients(global_gradients, lr=0.1)\<close>.\<close>

fun apply_all :: "SimpleNeuralNet list \<Rightarrow> grads_dict \<Rightarrow> real \<Rightarrow> error + SimpleNeuralNet list" where
  "apply_all [] g lr = Inr []"
| "apply_all (m # ms) g lr =
     (case apply_gradients m g lr of
        Inl e \<Rightarrow> Inl e
      | Inr m1 \<Rightarrow> (case apply_all ms g lr of Inl e \<Rightarrow> Inl e | Inr ms1 \<Rightarrow> Inr (m1 # ms1)))"

text \<open>
  One epoch. The forward and backward pass of a worker on its partition is the numeric
  kernel \<open>backward\<close>, a parameter of the model.
\<close>

definition epoch :: "(SimpleNeuralNet \<Rightarrow> 'p \<Rightarrow> grads_dict) \<Rightarrow> 'p list \<Rightarrow> SimpleNeuralNet list
    \<Rightarrow> error + SimpleNeuralNet list" where
  "epoch backward partitions models =
     (let local_gradients = map2 backward models partitions
      in case np_mean (map g_W1 local_gradients) of Inl e \<Rightarrow> Inl e | Inr m_W1 \<Rightarrow>
         case np_mean (map g_b1 local_gradients) of Inl e \<Rightarrow> Inl e | Inr m_b1 \<Rightarrow>
         case np_mean (map g_W2 local_gradients) of Inl e \<Rightarrow> Inl e | Inr m_W2 \<Rightarrow>
         case np_mean (map g_b2 local_gradients) of Inl e \<Rightarrow> Inl e | Inr m_b2 \<Rightarrow>
           apply_all models \<lparr>g_W1 = m_W1, g_b1 = m_b1, g_W2 = m_W2, g_b2 = m_b2\<rparr> 0.1)"

fun training_loop :: "nat \<Rightarrow> (SimpleNeuralNet \<Rightarrow> 'p \<Rightarrow> grads_dict) \<Rightarrow> 'p list \<Rightarrow> SimpleNeuralNet list
    \<Rightarrow> error + SimpleNeuralNet list" where
  "training_loop 0 backward partitions models = Inr models"
| "training_loop (Suc k) backward partitions models =
     (case epoch backward partitions models of
        Inl e \<Rightarrow> Inl e
      | Inr models1 \<Rightarrow> training_loop k backward partitions models1)"

text \<open>
  The coordinator: the models are built, one per worker (\<open>world_sz\<close> of them), and
  trained for the given number of epochs; the result is every worker's parameters after
  the last synchronisation.
\<close>

definition example_data_parallel_training :: "nat \<Rightarrow> nat \<Rightarrow> nat \<Rightarrow> nat \<Rightarrow> nat \<Rightarrow> (nat \<Rightarrow> real) \<Rightarrow> nat
    \<Rightarrow> (SimpleNeuralNet \<Rightarrow> 'p \<Rightarrow> grads_dict) \<Rightarrow> 'p list \<Rightarrow> error + SimpleNeuralNet list" where
  "example_data_parallel_training world_sz n_features hidden_dim output_dim epochs rng drawn
       backward partitions =
     (let (models, drawn1) = make_models world_sz n_features hidden_dim output_dim rng drawn
      in training_loop epochs backward partitions models)"

section \<open>Ring all-reduce\<close>

text \<open>
  Slices of one-dimensional arrays with non-negative bounds: \<open>a[start:stop]\<close> holds the
  elements at the positions \<open>start \<le> i < stop\<close> that exist. An in-place operator on a
  slice changes these positions of the array and follows numpy's shape rule.
\<close>

definition slice :: "ndarray \<Rightarrow> nat \<Rightarrow> nat \<Rightarrow> ndarray" where
  "slice a start stop = take (stop - start) (drop start a)"

definition slice_inplace :: "(real \<Rightarrow> real \<Rightarrow> real) \<Rightarrow> ndarray \<Rightarrow> nat \<Rightarrow> nat \<Rightarrow> ndarray \<Rightarrow> error + ndarray" where
  "slice_inplace f a start stop operand =
     (case np_inplace f (slice a start stop) operand of
        Inl e \<Rightarrow> Inl e
      | Inr v \<Rightarrow> Inr (take start a @ v @ drop (start + length v) a))"

text \<open>\<open>for x in xs: body\<close> on a state, ended by the first exception.\<close>

fun for_loop :: "'i list \<Rightarrow> ('i \<Rightarrow> 's \<Rightarrow> error + 's) \<Rightarrow> 's \<Rightarrow> error + 's" where
  "for_loop [] body s = Inr s"
| "for_loop (x # xs) body s =
     (case body x s of Inl e \<Rightarrow> Inl e | Inr s1 \<Rightarrow> for_loop xs body s1)"

text \<open>
  The ring neighbour and the chunk that a rank handles at a step, in Python's integer
  arithmetic, and the bounds of a chunk: the last chunk extends to the end of the vector.
\<close>

definition recv_from :: "nat \<Rightarrow> nat \<Rightarrow> nat" where
  "recv_from world_sz rank = nat ((int rank - 1 + int world_sz) mod int world_sz)"

definition scatter_chunk_idx :: "nat \<Rightarrow> nat \<Rightarrow> nat \<Rightarrow> nat" where
  "scatter_chunk_idx world_sz step rank =
     nat ((int rank - int step + int world_sz) mod int world_sz)"

definition gather_chunk_idx :: "nat \<Rightarrow> nat \<Rightarrow> nat \<Rightarrow> nat" where
  "gather_chunk_idx world_sz step rank =
     nat ((int rank - int step + 1 + int world_sz) mod int world_sz)"

definition chunk_start :: "nat \<Rightarrow> nat \<Rightarrow> nat" where
  "chunk_start chunk_size chunk_idx = chunk_idx * chunk_size"

definition chunk_stop :: "nat \<Rightarrow> nat \<Rightarrow> nat \<Rightarrow> nat \<Rightarrow> nat" where
  "chunk_stop world_sz gradient_size chunk_size chunk_idx =
     (if int chunk_idx < int world_sz - 1 then (chunk_idx + 1) * chunk_size else gradient_size)"

text \<open>
  The body of the inner loops. The state is the list of the workers' arrays, with the
  number of chunk transfers made so far: each execution of the body moves one chunk
  from the array of \<open>recv_from\<close> into the array of \<open>rank\<close>. In the first phase the chunk is
  added to the receiver's (\<open>+=\<close>), in the second it replaces it (\<open>=\<close>).
\<close>

definition transfer :: "(real \<Rightarrow> real \<Rightarrow> real) \<Rightarrow> nat \<Rightarrow> nat \<Rightarrow> nat \<Rightarrow> nat \<Rightarrow> nat
    \<Rightarrow> ndarray list \<times> nat \<Rightarrow> error + ndarray list \<times> nat" where
  "transfer f world_sz gradient_size chunk_size chunk_idx rank st =
     (let arrays = fst st;
          source = recv_from world_sz rank;
          start = chunk_start chunk_size chunk_idx;
          stop = chunk_stop world_sz gradient_size chunk_size chunk_idx
      in if rank < length arrays \<and> source < length arrays
         then (case slice_inplace f (arrays ! rank) start stop (slice (arrays ! source) start stop) of
                 Inl e \<Rightarrow> Inl e
               | Inr v \<Rightarrow> Inr (arrays[rank := v], Suc (snd st)))
         else Inl IndexError)"

definition reduce_scatter :: "nat \<Rightarrow> nat \<Rightarrow> nat \<Rightarrow> ndarray list \<times> nat \<Rightarrow> error + ndarray list \<times> nat" where
  "reduce_scatter world_sz gradient_size chunk_size =
     for_loop [0..<world_sz - 1] (\<lambda>step.
       for_loop [0..<world_sz] (\<lambda>rank.
         transfer (+) world_sz gradient_size chunk_size
           (scatter_chunk_idx world_sz step rank) rank))"

definition all_gather :: "nat \<Rightarrow> nat \<Rightarrow> nat \<Rightarrow> ndarray list \<times> nat \<Rightarrow> error + ndarray list \<times> nat" where
  "all_gather world_sz gradient_size chunk_size =
     for_loop [0..<world_sz - 1] (\<lambda>step.
       for_loop [0..<world_sz] (\<lambda>rank.
         transfer (\<lambda>x y. y) world_sz gradient_size chunk_size
           (gather_chunk_idx world_sz step rank) rank))"

text \<open>
  The simulation of the ring all-reduce on the workers' gradients. It returns the
  arrays after the first phase (\<open>intermediate\<close>), the arrays after the second
  (\<open>result\<close>), and the number of chunk transfers of both phases.
\<close>

definition example_ring_allreduce :: "nat \<Rightarrow> nat \<Rightarrow> ndarray list
    \<Rightarrow> error + ndarray list \<times> ndarray list \<times> nat" where
  "example_ring_allreduce world_sz gradient_size gradients =
     (if world_sz = 0 then Inl ZeroDivisionError
      else
        let chunk_size = gradient_size div world_sz
        in case reduce_scatter world_sz gradient_size chunk_size (gradients, 0) of
             Inl e \<Rightarrow> Inl e
           | Inr (intermediate, sent1) \<Rightarrow>
               (case all_gather world_sz gradient_size chunk_size (intermediate, sent1) of
                  Inl e \<Rightarrow> Inl e
                | Inr (result, sent2) \<Rightarrow> Inr (intermediate, result, sent2)))"

text \<open>
  Notions for stating what the ring computes. \<open>chunk_of\<close> is the index of the chunk that
  holds position \<open>i\<close> of a vector. \<open>contributions\<close> is the sum, at position \<open>i\<close>, of the
  gradients of rank \<open>r\<close> and of the \<open>m\<close> ranks before it on the ring. \<open>scattered\<close> and
  \<open>gathered\<close> give the entry at position \<open>i\<close> of the array of rank \<open>r\<close> after \<open>t\<close>
  steps of the first and of the second phase.
\<close>

definition chunk_of :: "nat \<Rightarrow> nat \<Rightarrow> nat \<Rightarrow> nat" where
  "chunk_of world_sz chunk_size i =
     (if chunk_size = 0 then world_sz - 1 else min (i div chunk_size) (world_sz - 1))"

definition contributions :: "nat \<Rightarrow> ndarray list \<Rightarrow> nat \<Rightarrow> nat \<Rightarrow> nat \<Rightarrow> real" where
  "contributions world_sz gradients r m i =
     (\<Sum>k\<le>m. gradients ! ((r + world_sz - k) mod world_sz) ! i)"

definition scattered :: "nat \<Rightarrow> nat \<Rightarrow> ndarray list \<Rightarrow> nat \<Rightarrow> nat \<Rightarrow> nat \<Rightarrow> real" where
  "scattered world_sz chunk_size gradients t r i =
     (let j = (r + world_sz - chunk_of world_sz chunk_size i) mod world_sz
      in if j < t then contributions world_sz gradients r (Suc j) i else gradients ! r ! i)"

definition gathered :: "nat \<Rightarrow> nat \<Rightarrow> ndarray list \<Rightarrow> nat \<Rightarrow> nat \<Rightarrow> nat \<Rightarrow> real" where
  "gathered world_sz chunk_size gradients t r i =
     (if \<exists>k\<le>t. chunk_of world_sz chunk_size i = (r + 2 + world_sz - k) mod world_sz
      then (\<Sum>q<world_sz. gradients ! q ! i)
      else scattered world_sz chunk_size gradients (world_sz - 1) r i)"

text \<open>The arrays of \<open>world_sz\<close> ranks, each of \<open>n\<close> entries, given entry by entry.\<close>

definition tabulate :: "nat \<Rightarrow> nat \<Rightarrow> (nat \<Rightarrow> nat \<Rightarrow> real) \<Rightarrow> ndarray list" where
  "tabulate world_sz n F = map (\<lambda>r. map (F r) [0..<n]) [0..<world_sz]"

section \<open>Versioning of the parameter server\<close>

lemma update_counters:
  assumes "update g lr st = (st', None)"
  shows "version (snd st') = version (snd st) + 1"
    and "update_count (snd st') = update_count (snd st) + 1"
  using assms by (auto simp: update_def split: prod.splits option.splits)

lemma updates_counters:
  "updates us st = (st', None) \<Longrightarrow>
     version (snd st') = version (snd st) + int (length us) \<and>
     update_count (snd st') = update_count (snd st) + int (length us)"
proof (induction us arbitrary: st)
  case Nil
  then show ?case by simp
next
  case (Cons u us)
  obtain g lr where u: "u = (g, lr)" by (cases u)
  from Cons.prems u obtain st1 where
    s1: "update g lr st = (st1, None)" and s2: "updates us st1 = (st', None)"
    by (auto split: prod.splits option.splits)
  from Cons.IH [OF s2] update_counters [OF s1] show ?case by simp
qed

lemma init_counters:
  "version (snd (ParameterServer_init shp h)) = 0"
  "update_count (snd (ParameterServer_init shp h)) = 0"
  by (simp_all add: ParameterServer_init_def split: prod.splits)

text \<open>
  C9. Starting from a freshly constructed parameter server, a run of N updates that all
  succeed leaves \<open>version = N\<close> and \<open>update_count = N\<close>, whatever the updates are and
  in whatever order they come.
\<close>

theorem updates_version_count:
  assumes "updates us (ParameterServer_init shp h) = (st', None)"
  shows "version (snd st') = int (length us) \<and> update_count (snd st') = int (length us)"
  using updates_counters [OF assms] by (simp add: init_counters)

theorem updates_version_count_witness:
  "updates [([''W'' \<mapsto> [1, 2]], 1), ([''W'' \<mapsto> [3, 4]], 2)] (ParameterServer_init [(''W'', 2)] [])
     = (([[-7, -10]], \<lparr>params = [(''W'', 0)], version = 2, update_count = 2\<rparr>), None)
   \<and> version \<lparr>params = [(''W'', 0)], version = 2, update_count = 2\<rparr> = int (length [1, 2 :: nat])"
proof -
  have run: "updates [([''W'' \<mapsto> [1, 2]], 1), ([''W'' \<mapsto> [3, 4]], 2)] (ParameterServer_init [(''W'', 2)] [])
     = (([[-7, -10]], \<lparr>params = [(''W'', 0)], version = 2, update_count = 2\<rparr>), None)"
    by (simp add: ParameterServer_init_def update_def np_isub_def np_inplace_def np_scale_def
        numeral_2_eq_2)
  from updates_version_count [OF run] run show ?thesis by simp
qed

section \<open>Snapshots of the parameter server\<close>

text \<open>
  C5. The claim is that the arrays of a snapshot returned by \<open>get_parameters\<close> are not
  changed by a later \<open>update\<close>. The snapshot is a copy of the dictionary only: it
  refers to the arrays that \<open>update\<close> changes in place. On a server with one parameter
  \<open>W\<close> of one element, a snapshot taken before \<open>update({'W': [1]}, lr=1)\<close> reads
  \<open>[0]\<close> before the update and \<open>[-1]\<close> after it.
\<close>

theorem snapshot_follows_update:
  "(let st0 = ParameterServer_init [(''W'', 1)] [];
        snapshot = fst (get_parameters st0);
        st1 = fst (update [''W'' \<mapsto> [1]] 1 st0)
    in read_arrays (fst st0) snapshot = [(''W'', [0])]
       \<and> snd (update [''W'' \<mapsto> [1]] 1 st0) = None
       \<and> read_arrays (fst st1) snapshot = [(''W'', [-1])])"
  by (simp add: ParameterServer_init_def update_def np_isub_def np_inplace_def np_scale_def
      get_parameters_def read_arrays_def)

section \<open>Selective receive\<close>

lemma set_queue_simps [simp]:
  "queues (set_queue r q sim) = (queues sim)(r \<mapsto> q)"
  "world_size (set_queue r q sim) = world_size sim"
  "set_queue r q (set_queue r q' sim) = set_queue r q sim"
  by (simp_all add: set_queue_def)

lemma find_first:
  "\<forall>y\<in>set pre. \<not> P y \<Longrightarrow> P x \<Longrightarrow> find P (pre @ x # post) = Some x"
  by (induction pre) auto

text \<open>
  The queue splits at the first message from \<open>X\<close>. The call skips the messages before
  it, one nested call each, and leaves them behind the others.
\<close>

lemma receive_split:
  assumes "queues sim rank = Some (pre @ (X, d) # post)" and "X \<notin> fst ` set pre" and "X \<noteq> -1"
  shows "receive limit rank X sim =
     (if length pre \<le> limit
      then Returns d (set_queue rank (post @ pre) sim)
      else Raises RecursionError
             (set_queue rank (drop (Suc limit) pre @ (X, d) # post @ take (Suc limit) pre) sim))"
  using assms
proof (induction pre arbitrary: sim limit post)
  case Nil
  then show ?case by (simp add: receive.simps)
next
  case (Cons m pre)
  obtain s e where m: "m = (s, e)" by (cases m)
  with Cons.prems have sX: "s \<noteq> X" and nin: "X \<notin> fst ` set pre" by auto
  let ?sim2 = "set_queue rank (pre @ (X, d) # (post @ [(s, e)])) sim"
  have q2: "queues ?sim2 rank = Some (pre @ (X, d) # (post @ [(s, e)]))" by simp
  show ?case
  proof (cases limit)
    case 0
    with Cons.prems m sX show ?thesis
      by (simp add: receive.simps [of 0] put_def)
  next
    case (Suc l)
    have "receive limit rank X sim = receive l rank X ?sim2"
      using Cons.prems m sX Suc by (simp add: receive.simps [of "Suc l" rank X sim] put_def)
    also note Cons.IH [OF q2 nin \<open>X \<noteq> -1\<close>, of l]
    finally show ?thesis using Suc m by simp
  qed
qed

text \<open>Without a message from \<open>X\<close> in the queue the call does not return.\<close>

lemma receive_no_match:
  assumes "queues sim rank = Some q" and "X \<noteq> -1" and "X \<notin> fst ` set q"
  shows "receive limit rank X sim \<noteq> Returns d s"
  using assms
proof (induction limit arbitrary: sim q)
  case 0
  then show ?case
    by (cases q) (auto simp: receive.simps [of 0] put_def)
next
  case (Suc l)
  show ?case
  proof (cases q)
    case Nil
    with Suc.prems show ?thesis by (simp add: receive.simps [of "Suc l"])
  next
    case (Cons m q')
    obtain a b where m: "m = (a, b)" by (cases m)
    let ?sim2 = "set_queue rank (q' @ [(a, b)]) sim"
    have q2: "queues ?sim2 rank = Some (q' @ [(a, b)])" by simp
    have nin: "X \<notin> fst ` set (q' @ [(a, b)])" using Suc.prems Cons m by auto
    have "receive (Suc l) rank X sim = receive l rank X ?sim2"
      using Suc.prems Cons m by (auto simp: receive.simps [of "Suc l" rank X sim] put_def)
    with Suc.IH [OF q2 \<open>X \<noteq> -1\<close> nin] show ?thesis by simp
  qed
qed

lemma send_existing:
  "queues sim dest = Some q \<Longrightarrow>
     send data src dest sim = Returns () (set_queue dest (q @ [(src, data)]) sim)"
  by (simp add: send_def put_def)

text \<open>
  C10. When the mailbox of \<open>rank\<close> holds a message from \<open>X\<close> (a rank, so not the
  wildcard \<open>-1\<close>), \<open>receive(rank, X)\<close> returns the data of the oldest such message.
  It needs one nested call for each message that precedes it in the queue: with that
  many calls allowed it returns, with fewer it raises \<open>RecursionError\<close>.
\<close>

theorem receive_returns_oldest:
  assumes "queues sim rank = Some q" and "X \<noteq> -1" and "X \<in> fst ` set q"
  shows "\<exists>data. find (\<lambda>m. fst m = X) q = Some (X, data) \<and>
     (\<forall>limit. receive limit rank X sim =
        (if length (takeWhile (\<lambda>m. fst m \<noteq> X) q) \<le> limit
         then Returns data (set_queue rank
                (tl (dropWhile (\<lambda>m. fst m \<noteq> X) q) @ takeWhile (\<lambda>m. fst m \<noteq> X) q) sim)
         else Raises RecursionError (set_queue rank (drop (Suc limit) q @ take (Suc limit) q) sim)))"
proof -
  from assms(3) have "\<exists>m\<in>set q. fst m = X" by auto
  from split_list_first_prop [OF this] obtain pre m post where
    q: "q = pre @ m # post" and m: "fst m = X" and pre: "\<forall>y\<in>set pre. fst y \<noteq> X"
    by blast
  obtain data where md: "m = (X, data)" using m by (cases m) auto
  have nin: "X \<notin> fst ` set pre" using pre by auto
  have tw: "takeWhile (\<lambda>m. fst m \<noteq> X) q = pre"
    using q md pre by (simp add: takeWhile_append2)
  have dw: "dropWhile (\<lambda>m. fst m \<noteq> X) q = (X, data) # post"
    using q md pre by (simp add: dropWhile_append2)
  have fnd: "find (\<lambda>m. fst m = X) q = Some (X, data)"
    using q md pre m by (simp add: find_first)
  have "receive limit rank X sim =
        (if length pre \<le> limit
         then Returns data (set_queue rank (post @ pre) sim)
         else Raises RecursionError (set_queue rank (drop (Suc limit) q @ take (Suc limit) q) sim))" for limit
    using receive_split [of sim rank pre X data post limit] assms(1,2) q md nin
    by (auto simp: not_le Suc_le_eq)
  with fnd tw dw show ?thesis by auto
qed

theorem receive_returns_oldest_witness:
  "receive 1 0 2 \<lparr>world_size = 3,
       queues = [1 \<mapsto> [], 2 \<mapsto> [], 0 \<mapsto> [(1, 10), (2, 20), (1, 11), (2, 21)]]\<rparr>
     = Returns (20::nat) \<lparr>world_size = 3,
         queues = [1 \<mapsto> [], 2 \<mapsto> [], 0 \<mapsto> [(1, 11), (2, 21), (1, 10)]]\<rparr>
   \<and> receive 0 0 2 \<lparr>world_size = 3,
       queues = [1 \<mapsto> [], 2 \<mapsto> [], 0 \<mapsto> [(1, 10), (2, 20), (1, 11), (2, 21)]]\<rparr>
     = Raises RecursionError \<lparr>world_size = 3,
         queues = [1 \<mapsto> [], 2 \<mapsto> [], 0 \<mapsto> [(2, 20::nat), (1, 11), (2, 21), (1, 10)]]\<rparr>"
  using receive_returns_oldest [of "\<lparr>world_size = 3,
      queues = [1 \<mapsto> [], 2 \<mapsto> [], 0 \<mapsto> [(1, 10), (2, 20::nat), (1, 11), (2, 21)]]\<rparr>" 0
      "[(1, 10), (2, 20), (1, 11), (2, 21)]" 2]
  by (simp add: set_queue_def)

section \<open>Order of delivery\<close>

lemma data_from_simps [simp]:
  "data_from X [] = []"
  "data_from X (q @ r) = data_from X q @ data_from X r"
  "data_from X ((s, d) # q) = (if s = X then d # data_from X q else data_from X q)"
  by (simp_all add: data_from_def)

lemma data_from_none: "X \<notin> fst ` set q \<Longrightarrow> data_from X q = []"
  by (induction q) (auto simp: data_from_def)

lemma run_calls_fifo:
  assumes "X \<noteq> -1"
  shows "queues sim dest = Some q \<Longrightarrow> \<forall>c\<in>set cs. (\<forall>Y. c = Receive Y \<longrightarrow> Y = X) \<Longrightarrow>
     prefix (map snd (run_calls limit dest cs sim)) (data_from X q @ sent_from X cs)"
proof (induction cs arbitrary: sim q)
  case Nil
  then show ?case by simp
next
  case (Cons c cs)
  show ?case
  proof (cases c)
    case (Send data src)
    let ?sim1 = "set_queue dest (q @ [(src, data)]) sim"
    have q1: "queues ?sim1 dest = Some (q @ [(src, data)])" by simp
    from Cons.prems(2) have rest: "\<forall>c\<in>set cs. (\<forall>Y. c = Receive Y \<longrightarrow> Y = X)" by simp
    from Cons.IH [OF q1 rest] show ?thesis
      using Send send_existing [OF Cons.prems(1), of data src] by (cases "src = X") simp_all
  next
    case (Receive Y)
    with Cons.prems(2) have Y: "Y = X" by simp
    from Cons.prems(2) have rest: "\<forall>c\<in>set cs. (\<forall>Y. c = Receive Y \<longrightarrow> Y = X)" by simp
    show ?thesis
    proof (cases "X \<in> fst ` set q")
      case False
      from receive_no_match [OF Cons.prems(1) assms False, of limit]
      show ?thesis using Receive Y by (auto split: outcome.splits)
    next
      case True
      then have "\<exists>m\<in>set q. fst m = X" by auto
      from split_list_first_prop [OF this] obtain pre m post where
        q: "q = pre @ m # post" and m: "fst m = X" and pre: "\<forall>y\<in>set pre. fst y \<noteq> X"
        by blast
      obtain d where md: "m = (X, d)" using m by (cases m) auto
      have nin: "X \<notin> fst ` set pre" using pre by auto
      let ?sim1 = "set_queue dest (post @ pre) sim"
      have q1: "queues ?sim1 dest = Some (post @ pre)" by simp
      have rcv: "receive limit dest X sim =
          (if length pre \<le> limit then Returns d ?sim1
           else Raises RecursionError
             (set_queue dest (drop (Suc limit) pre @ (X, d) # post @ take (Suc limit) pre) sim))"
        using receive_split [of sim dest pre X d post limit] Cons.prems(1) q md nin assms by simp
      show ?thesis
      proof (cases "length pre \<le> limit")
        case False
        with rcv Receive Y show ?thesis by simp
      next
        case True
        from Cons.IH [OF q1 rest]
        show ?thesis using rcv True Receive Y q md by (simp add: data_from_none [OF nin])
      qed
    qed
  qed
qed

text \<open>
  C3, as the claim states it: the messages that a selective receive skips keep their
  place relative to the other messages, hence a source's messages come out in send
  order even between selective receives for other sources. Rank 1 sends \<open>1\<close> and
  then \<open>2\<close> to rank 0, rank 2 sends \<open>7\<close> in between; \<open>receive(0, 2)\<close> moves the
  skipped first message of rank 1 behind the second one, and the next two
  \<open>receive(0, 1)\<close> return \<open>2\<close> before \<open>1\<close>.
\<close>

theorem receive_reorders_counterexample:
  "run_calls 5 0 [Send (1::nat) 1, Send 7 2, Send 2 1, Receive 2, Receive 1, Receive 1]
     (DistributedSimulator_init 3) = [(2, 7), (1, 2), (1, 1)]"
  by (simp add: DistributedSimulator_init_def send_def put_def receive.simps set_queue_def)

text \<open>
  C3, amended. \<open>receive(dest, X)\<close> puts the messages it skips behind the rest of the
  mailbox: the messages after the match come first, then the skipped ones, each group in
  its order, and no message is lost. For any sends to \<open>dest\<close>, from any sources,
  interleaved with receives that all ask for \<open>X\<close>, the data returned are, in order, the
  first of the data that \<open>X\<close> has in the mailbox or sends.
\<close>

theorem receive_requeues_at_tail:
  assumes "X \<noteq> -1" and "queues sim dest = Some q"
  shows "(q = pre @ (X, d) # post \<and> X \<notin> fst ` set pre \<and> length pre \<le> limit
            \<longrightarrow> receive limit dest X sim = Returns d (set_queue dest (post @ pre) sim))
       \<and> ((\<forall>c\<in>set cs. \<forall>Y. c = Receive Y \<longrightarrow> Y = X)
            \<longrightarrow> prefix (map snd (run_calls limit dest cs sim)) (data_from X q @ sent_from X cs))"
  using receive_split [of sim dest pre X d post limit] run_calls_fifo [of X sim dest q cs limit] assms
  by simp

theorem receive_requeues_at_tail_witness:
  "receive 5 0 1 \<lparr>world_size = 3,
       queues = [1 \<mapsto> [], 2 \<mapsto> [], 0 \<mapsto> [(2, 7), (1, 1), (2, 8), (1, 2)]]\<rparr>
     = Returns (1::nat) \<lparr>world_size = 3,
         queues = [1 \<mapsto> [], 2 \<mapsto> [], 0 \<mapsto> [(2, 8), (1, 2), (2, 7)]]\<rparr>
   \<and> prefix (map snd (run_calls 5 0 [Send 3 1, Receive 1, Send 9 2, Receive 1, Receive 1]
         \<lparr>world_size = 3,
            queues = [1 \<mapsto> [], 2 \<mapsto> [], 0 \<mapsto> [(2, 7), (1, 1), (2, 8), (1, 2)]]\<rparr>))
       [1, 2, 3 :: nat]"
  using receive_requeues_at_tail [of 1 "\<lparr>world_size = 3,
      queues = [1 \<mapsto> [], 2 \<mapsto> [], 0 \<mapsto> [(2, 7), (1, 1::nat), (2, 8), (1, 2)]]\<rparr>" 0
      "[(2, 7), (1, 1), (2, 8), (1, 2)]"
      "[(2, 7)]" 1 "[(2, 8), (1, 2)]" 5 "[Send 3 1, Receive 1, Send 9 2, Receive 1, Receive 1]"]
  by (simp add: set_queue_def)

section \<open>Shape mismatch\<close>



lemma upto_from_1: "2 \<le> (n::int) \<Longrightarrow> [1..n - 1] = 1 # [2..n - 1]"
  by (simp add: upto_rec1)




section \<open>Federated weighted average\<close>

lemma py_sum_same_length:
  "\<forall>x\<in>set xs. length x = length a \<Longrightarrow>
     py_sum (Some a) xs = Inr (Some (map (\<lambda>j. a ! j + (\<Sum>x\<leftarrow>xs. x ! j)) [0..<length a]))"
proof (induction xs arbitrary: a)
  case Nil
  then show ?case by (simp add: map_nth)
next
  case (Cons x xs)
  let ?a = "map2 (+) a x"
  from Cons.prems have len: "length x = length a" and rest: "\<forall>y\<in>set xs. length y = length ?a"
    by simp_all
  have "py_sum (Some a) (x # xs) = py_sum (Some ?a) xs"
    using len by (simp add: np_add_def)
  also have "\<dots> = Inr (Some (map (\<lambda>j. ?a ! j + (\<Sum>x\<leftarrow>xs. x ! j)) [0..<length ?a]))"
    by (rule Cons.IH [OF rest])
  also have "map (\<lambda>j. ?a ! j + (\<Sum>x\<leftarrow>xs. x ! j)) [0..<length ?a]
      = map (\<lambda>j. a ! j + (\<Sum>x\<leftarrow>x # xs. x ! j)) [0..<length a]"
    using len by (auto simp: add.assoc)
  finally show ?case .
qed

lemma py_sum_start:
  assumes "xs \<noteq> []" and "\<forall>x\<in>set xs. length x = n"
  shows "py_sum None xs = Inr (Some (map (\<lambda>j. \<Sum>x\<leftarrow>xs. x ! j) [0..<n]))"
proof -
  from assms(1) obtain x xs' where xs: "xs = x # xs'" by (cases xs) auto
  with assms(2) have "\<forall>y\<in>set xs'. length y = length x" and "length x = n" by simp_all
  with py_sum_same_length [of xs' x] xs show ?thesis by simp
qed

lemma sum_list_zip_nth:
  "length ws = length ms \<Longrightarrow>
     sum_list (map f (zip ws ms)) = (\<Sum>i<length ws. f (ws ! i, ms ! i))"
  by (simp add: sum_list_sum_nth atLeast0LessThan)

lemma aggregate_weighted_mean:
  assumes len: "length client_weights = length client_models"
    and ne: "client_models \<noteq> []"
    and shape: "\<forall>m\<in>set client_models. length (fst m) = n"
    and tot: "sum_list client_weights \<noteq> 0"
  shows "aggregate client_weights client_models =
     Inr (map (\<lambda>j. weighted_mean client_weights (map (\<lambda>m. fst m ! j) client_models)) [0..<n],
          weighted_mean client_weights (map snd client_models))"
proof -
  let ?xs = "map (\<lambda>(w, model). np_scale (of_int w) (fst model)) (zip client_weights client_models)"
  have xs_ne: "?xs \<noteq> []" using len ne by (cases client_weights; cases client_models) auto
  have xs_len: "\<forall>x\<in>set ?xs. length x = n"
  proof
    fix x assume "x \<in> set ?xs"
    then obtain w m where "(w, m) \<in> set (zip client_weights client_models)"
      and x: "x = np_scale (of_int w) (fst m)" by auto
    then have "m \<in> set client_models" by (auto dest: set_zip_rightD)
    with shape x show "length x = n" by (simp add: np_scale_def)
  qed
  have total: "(of_int (sum_list client_weights) :: real) = (\<Sum>i<length client_weights. of_int (client_weights ! i))"
    by (simp add: sum_list_sum_nth atLeast0LessThan)
  have coord: "(\<Sum>x\<leftarrow>?xs. x ! j) / of_int (sum_list client_weights)
      = weighted_mean client_weights (map (\<lambda>m. fst m ! j) client_models)" if "j < n" for j
  proof -
    have "(\<Sum>x\<leftarrow>?xs. x ! j)
        = sum_list (map (\<lambda>(w, model). of_int w * fst model ! j) (zip client_weights client_models))"
      unfolding map_map
    proof (rule arg_cong [where f = sum_list], rule map_cong [OF refl])
      fix p assume "p \<in> set (zip client_weights client_models)"
      then have "snd p \<in> set client_models"
        using set_zip_rightD [of "fst p" "snd p" client_weights client_models] by simp
      with shape that have "j < length (fst (snd p))" by simp
      then show "((\<lambda>x. x ! j) \<circ> (\<lambda>(w, model). np_scale (of_int w) (fst model))) p
          = (case p of (w, model) \<Rightarrow> of_int w * fst model ! j)"
        by (cases p) (simp add: np_scale_def)
    qed
    also have "\<dots> = (\<Sum>i<length client_weights. of_int (client_weights ! i) * fst (client_models ! i) ! j)"
      using len by (simp add: sum_list_zip_nth)
    also have "\<dots> = (\<Sum>i<length client_weights.
        of_int (client_weights ! i) * map (\<lambda>m. fst m ! j) client_models ! i)"
      by (rule sum.cong) (simp_all add: len)
    finally show ?thesis
      by (simp add: weighted_mean_def total)
  qed
  have bias: "sum_list (map (\<lambda>(w, model). of_int w * snd model) (zip client_weights client_models))
        / of_int (sum_list client_weights)
      = weighted_mean client_weights (map snd client_models)"
  proof -
    have "sum_list (map (\<lambda>(w, model). of_int w * snd model) (zip client_weights client_models))
        = (\<Sum>i<length client_weights. of_int (client_weights ! i) * snd (client_models ! i))"
      using len by (simp add: sum_list_zip_nth)
    also have "\<dots> = (\<Sum>i<length client_weights. of_int (client_weights ! i) * map snd client_models ! i)"
      by (rule sum.cong) (simp_all add: len)
    finally show ?thesis
      by (simp add: weighted_mean_def total)
  qed
  have "aggregate client_weights client_models =
      Inr (map (\<lambda>x. x / of_int (sum_list client_weights)) (map (\<lambda>j. \<Sum>x\<leftarrow>?xs. x ! j) [0..<n]),
           weighted_mean client_weights (map snd client_models))"
    using tot bias by (simp add: aggregate_def py_sum_start [OF xs_ne xs_len])
  also have "map (\<lambda>x. x / of_int (sum_list client_weights)) (map (\<lambda>j. \<Sum>x\<leftarrow>?xs. x ! j) [0..<n])
      = map (\<lambda>j. weighted_mean client_weights (map (\<lambda>m. fst m ! j) client_models)) [0..<n]"
    using coord by simp
  finally show ?thesis .
qed

text \<open>
  C8. In a communication round the new global parameters are the weighted mean
  \<open>\<Sum>(weight\<^sub>i \<cdot> params\<^sub>i) / \<Sum>(weight\<^sub>i)\<close> of the parameters that the clients have
  trained, the weights being their sample counts: each coordinate of \<open>W\<close>, and \<open>b\<close>.
  The round has a client, the trained arrays have one shape, and the counts do not sum to
  zero. With counts 3 and 1 and values 2 and 10 the result is 4.
\<close>

theorem federated_round_weighted_mean:
  assumes "client_data \<noteq> []"
    and "\<forall>d\<in>set client_data. length (fst (local_training d global_model)) = n"
    and "sum_list (map n_samples client_data) \<noteq> 0"
  shows "federated_round local_training n_samples client_data global_model =
     Inr (map (\<lambda>j. weighted_mean (map n_samples client_data)
                      (map (\<lambda>d. fst (local_training d global_model) ! j) client_data)) [0..<n],
          weighted_mean (map n_samples client_data)
            (map (\<lambda>d. snd (local_training d global_model)) client_data))"
  using aggregate_weighted_mean [of "map n_samples client_data"
      "map (\<lambda>d. local_training d global_model) client_data" n] assms
  by (simp add: federated_round_def comp_def)

theorem federated_round_weighted_mean_witness:
  "federated_round (\<lambda>d g. snd d) fst [(3, ([2], 2)), (1, ([10], 10))] ([0], 0) = Inr ([4], 4)
   \<and> weighted_mean [3, 1] [2, 10] = (3 * 2 + 1 * 10) / 4"
  using federated_round_weighted_mean [of "[(3, ([2], 2)), (1, ([10], 10))]" "\<lambda>d g. snd d" "([0], 0)" 1 fst]
  by (simp add: weighted_mean_def lessThan_Suc numeral_2_eq_2)

section \<open>Synchronisation of the data-parallel workers\<close>

text \<open>
  A round subtracts the same array from the \<open>W1\<close> of every worker, so the difference
  between the \<open>W1\<close> of two workers never changes: after any number of epochs two
  workers agree on \<open>W1\<close> exactly when they did before the first one.
\<close>

lemma np_isub_difference:
  assumes "np_isub a g = Inr a'" and "np_isub b g = Inr b'" and "length a = length b"
  shows "length a' = length b' \<and> map2 (-) a' b' = map2 (-) a b"
proof (cases "length g = length a")
  case True
  with assms have a': "a' = map2 (-) a g" and b': "b' = map2 (-) b g"
    by (simp_all add: np_isub_def np_inplace_def)
  have "map2 (-) a' b' = map2 (-) a b"
    unfolding a' b' using True assms(3) by (intro nth_equalityI) simp_all
  with a' b' True assms(3) show ?thesis by simp
next
  case False
  with assms have a': "a' = map (\<lambda>x. x - hd g) a" and b': "b' = map (\<lambda>x. x - hd g) b"
    by (simp_all add: np_isub_def np_inplace_def split: if_splits)
  have "map2 (-) a' b' = map2 (-) a b"
    unfolding a' b' using assms(3) by (intro nth_equalityI) simp_all
  with a' b' assms(3) show ?thesis by simp
qed

lemma apply_gradients_W1:
  "apply_gradients a g lr = Inr a' \<Longrightarrow> np_isub (W1 a) (np_scale lr (g_W1 g)) = Inr (W1 a')"
  by (auto simp: apply_gradients_def split: sum.splits)

lemma apply_all_nth:
  "apply_all ms g lr = Inr ms' \<Longrightarrow>
     length ms' = length ms \<and> (\<forall>r<length ms. apply_gradients (ms ! r) g lr = Inr (ms' ! r))"
proof (induction ms arbitrary: ms')
  case Nil
  then show ?case by simp
next
  case (Cons m ms)
  from Cons.prems obtain m1 ms1 where
    m1: "apply_gradients m g lr = Inr m1" and ms1: "apply_all ms g lr = Inr ms1"
    and ms': "ms' = m1 # ms1"
    by (auto split: sum.splits)
  from Cons.IH [OF ms1] m1 ms' show ?case by (auto simp: nth_Cons split: nat.splits)
qed

lemma epoch_applies:
  "epoch backward partitions ms = Inr ms' \<Longrightarrow> \<exists>g. apply_all ms g 0.1 = Inr ms'"
  by (auto simp: epoch_def Let_def split: sum.splits)

lemma epoch_keeps_difference:
  assumes "epoch backward partitions ms = Inr ms'" and "r < length ms" and "q < length ms"
    and "length (W1 (ms ! r)) = length (W1 (ms ! q))"
  shows "length ms' = length ms \<and> length (W1 (ms' ! r)) = length (W1 (ms' ! q))
     \<and> map2 (-) (W1 (ms' ! r)) (W1 (ms' ! q)) = map2 (-) (W1 (ms ! r)) (W1 (ms ! q))"
proof -
  from epoch_applies [OF assms(1)] obtain g where "apply_all ms g 0.1 = Inr ms'" ..
  from apply_all_nth [OF this] assms(2,3) have
    len: "length ms' = length ms"
    and r: "apply_gradients (ms ! r) g 0.1 = Inr (ms' ! r)"
    and q: "apply_gradients (ms ! q) g 0.1 = Inr (ms' ! q)"
    by simp_all
  from np_isub_difference [OF apply_gradients_W1 [OF r] apply_gradients_W1 [OF q] assms(4)] len
  show ?thesis by simp
qed

lemma training_keeps_difference:
  assumes "training_loop k backward partitions ms = Inr ms'" and "r < length ms" and "q < length ms"
    and "length (W1 (ms ! r)) = length (W1 (ms ! q))"
  shows "length ms' = length ms \<and> length (W1 (ms' ! r)) = length (W1 (ms' ! q))
     \<and> map2 (-) (W1 (ms' ! r)) (W1 (ms' ! q)) = map2 (-) (W1 (ms ! r)) (W1 (ms ! q))"
  using assms
proof (induction k arbitrary: ms)
  case 0
  then show ?case by simp
next
  case (Suc k)
  from Suc.prems(1) obtain ms1 where
    e: "epoch backward partitions ms = Inr ms1" and t: "training_loop k backward partitions ms1 = Inr ms'"
    by (auto split: sum.splits)
  from epoch_keeps_difference [OF e Suc.prems(2-4)] have
    a: "length ms1 = length ms" "length (W1 (ms1 ! r)) = length (W1 (ms1 ! q))"
    "map2 (-) (W1 (ms1 ! r)) (W1 (ms1 ! q)) = map2 (-) (W1 (ms ! r)) (W1 (ms ! q))"
    by simp_all
  from Suc.IH [OF t] a Suc.prems(2,3) show ?case by simp
qed

lemma equal_iff_difference:
  assumes "length a = length b" and "length a' = length b'" and "map2 (-) a' b' = map2 (-) a b"
  shows "a' = b' \<longleftrightarrow> a = (b::real list)"
proof -
  have l: "length a' = length a" using assms by (metis length_map length_zip min.idem)
  have d: "a' ! i - b' ! i = a ! i - b ! i" if "i < length a" for i
  proof -
    have "map2 (-) a' b' ! i = map2 (-) a b ! i" using assms(3) by simp
    with that l assms(1,2) show ?thesis by simp
  qed
  show ?thesis
  proof
    assume "a' = b'"
    with d have "a ! i = b ! i" if "i < length a" for i using that by fastforce
    with assms(1) show "a = b" by (intro nth_equalityI) simp_all
  next
    assume "a = b"
    with d have "a' ! i = b' ! i" if "i < length a'" for i using that l by fastforce
    with assms(2) show "a' = b'" by (intro nth_equalityI) simp_all
  qed
qed

lemma workers_agree_iff_initially:
  assumes "training_loop k backward partitions ms = Inr ms'" and "r < length ms" and "q < length ms"
    and "length (W1 (ms ! r)) = length (W1 (ms ! q))"
  shows "W1 (ms' ! r) = W1 (ms' ! q) \<longleftrightarrow> W1 (ms ! r) = W1 (ms ! q)"
  using training_keeps_difference [OF assms] assms(4) by (intro equal_iff_difference) simp_all

text \<open>
  C2. The claim is that after every round all workers hold the same parameters. The
  code builds each worker's model with its own draws from the random generator (under a
  comment that announces identical models), and every round subtracts the same averaged
  gradient from all of them, so the workers never agree on \<open>W1\<close> and \<open>W2\<close>. With two
  workers, networks of one weight per layer, the draws \<open>0, 1, 2, 3\<close> and a kernel that
  returns the weights as their gradient, two epochs leave \<open>W1 = [-0.019]\<close> at rank 0 and
  \<open>W1 = [0.181]\<close> at rank 1.
\<close>

theorem workers_never_synchronised:
  "example_data_parallel_training 2 1 1 1 2 (\<lambda>k. real k) 0
       (\<lambda>net p. \<lparr>g_W1 = W1 net, g_b1 = [p], g_W2 = W2 net, g_b2 = [1]\<rparr>) [1, 3]
     = Inr [\<lparr>W1 = [-19 / 1000], b1 = [-4 / 10], W2 = [62 / 1000], b2 = [-2 / 10]\<rparr>,
            \<lparr>W1 = [181 / 1000], b1 = [-4 / 10], W2 = [262 / 1000], b2 = [-2 / 10]\<rparr>]"
  by (simp add: example_data_parallel_training_def SimpleNeuralNet_init_def randn_def
      epoch_def np_mean_def apply_gradients_def np_isub_def np_inplace_def np_scale_def
      numeral_2_eq_2 upt_rec)

section \<open>Ring all-reduce: indices\<close>

lemma mod_wrap: "(a::nat) < W \<Longrightarrow> x = a + W \<Longrightarrow> x mod W = a"
  by simp

lemma ring_back:
  fixes r W k :: nat
  assumes "r < W" and "k \<le> W"
  shows "(r + W - k) mod W = (if k \<le> r then r - k else r + W - k)"
proof (cases "k \<le> r")
  case True
  then have "(r + W - k) mod W = r - k"
    using assms by (intro mod_wrap) arith+
  with True show ?thesis by simp
next
  case False
  with assms have "r + W - k < W" by arith
  with False show ?thesis by simp
qed

lemma nat_int_mod: "nat (int a mod int W) = a mod W"
  by (simp add: zmod_int [symmetric])

lemma int_ring_sub:
  assumes "r < W" and "k \<le> W"
  shows "nat ((int r - int k + int W) mod int W) = (r + W - k) mod W"
proof -
  have "int r - int k + int W = int (r + W - k)" using assms by (simp add: of_nat_diff)
  then have "nat ((int r - int k + int W) mod int W) = nat (int (r + W - k) mod int W)"
    by (simp only:)
  then show ?thesis by (simp only: nat_int_mod)
qed

lemma recv_from_eq: "r < W \<Longrightarrow> 0 < W \<Longrightarrow> recv_from W r = (r + W - 1) mod W"
  using int_ring_sub [of r W 1] by (simp add: recv_from_def)

lemma scatter_chunk_idx_eq: "r < W \<Longrightarrow> s \<le> W \<Longrightarrow> scatter_chunk_idx W s r = (r + W - s) mod W"
  using int_ring_sub [of r W s] by (simp add: scatter_chunk_idx_def)

lemma gather_chunk_idx_eq:
  assumes "r < W" and "s \<le> W"
  shows "gather_chunk_idx W s r = (r + 1 + W - s) mod W"
proof -
  have "int r - int s + 1 + int W = int (r + 1 + W - s)" using assms by (simp add: of_nat_diff)
  then have "nat ((int r - int s + 1 + int W) mod int W) = nat (int (r + 1 + W - s) mod int W)"
    by (simp only:)
  then show ?thesis by (simp only: nat_int_mod gather_chunk_idx_def)
qed

lemma gather_chunk_idx_if:
  assumes "r < W" and "s < W"
  shows "gather_chunk_idx W s r =
     (if s \<le> r then (if r + 1 - s = W then 0 else r + 1 - s) else
      if s = r + 1 then 0 else r + 1 + W - s)"
proof -
  consider "s \<le> r" "r + 1 - s = W" | "s \<le> r" "r + 1 - s < W" | "s = r + 1" | "r + 1 < s"
    using assms by arith
  then show ?thesis
  proof cases
    case 1
    then have "r + 1 + W - s = W + W" by arith
    with 1 show ?thesis by (simp add: gather_chunk_idx_eq assms less_imp_le)
  next
    case 2
    then have "(r + 1 + W - s) mod W = r + 1 - s"
      by (intro mod_wrap) arith+
    with 2 show ?thesis using assms by (simp add: gather_chunk_idx_eq less_imp_le)
  next
    case 3
    then show ?thesis using assms by (simp add: gather_chunk_idx_eq less_imp_le)
  next
    case 4
    then have "r + 1 + W - s < W" using assms by arith
    with 4 show ?thesis using assms by (simp add: gather_chunk_idx_eq less_imp_le)
  qed
qed

section \<open>Ring all-reduce: slices, loops and chunks\<close>

lemma slice_length: "stop \<le> length a \<Longrightarrow> length (slice a start stop) = stop - start"
  by (simp add: slice_def)

lemma slice_nth: "stop \<le> length a \<Longrightarrow> k < stop - start \<Longrightarrow> slice a start stop ! k = a ! (start + k)"
  by (simp add: slice_def)

lemma map2_slice_nth:
  "stop \<le> length a \<Longrightarrow> stop \<le> length b \<Longrightarrow> k < stop - start \<Longrightarrow>
     map2 f (slice a start stop) (slice b start stop) ! k = f (a ! (start + k)) (b ! (start + k))"
  by (simp add: slice_def)

lemma slice_inplace_nth:
  assumes "length a = n" and "length b = n" and "start \<le> stop" and "stop \<le> n"
  shows "slice_inplace f a start stop (slice b start stop) =
     Inr (map (\<lambda>i. if start \<le> i \<and> i < stop then f (a ! i) (b ! i) else a ! i) [0..<n])"
proof -
  define v where "v = map2 f (slice a start stop) (slice b start stop)"
  have lv: "length v = stop - start" using assms by (simp add: v_def slice_length)
  have np: "np_inplace f (slice a start stop) (slice b start stop) = Inr v"
    using assms by (simp add: np_inplace_def slice_length v_def)
  have "take start a @ v @ drop (start + length v) a =
      map (\<lambda>i. if start \<le> i \<and> i < stop then f (a ! i) (b ! i) else a ! i) [0..<n]"
  proof (rule nth_equalityI)
    show "length (take start a @ v @ drop (start + length v) a) =
        length (map (\<lambda>i. if start \<le> i \<and> i < stop then f (a ! i) (b ! i) else a ! i) [0..<n])"
      using assms lv by simp
  next
    fix i assume "i < length (take start a @ v @ drop (start + length v) a)"
    then have i: "i < n" using assms lv by simp
    consider "i < start" | "start \<le> i" "i < stop" | "stop \<le> i" by arith
    then show "(take start a @ v @ drop (start + length v) a) ! i =
        map (\<lambda>i. if start \<le> i \<and> i < stop then f (a ! i) (b ! i) else a ! i) [0..<n] ! i"
    proof cases
      case 1
      with i assms show ?thesis by (simp add: nth_append)
    next
      case 2
      then have k: "i - start < stop - start" by arith
      have "(take start a @ v @ drop (start + length v) a) ! i = v ! (i - start)"
        using 2 i assms lv k by (simp add: nth_append)
      also have "\<dots> = f (a ! (start + (i - start))) (b ! (start + (i - start)))"
        unfolding v_def using k assms by (intro map2_slice_nth) simp_all
      also have "start + (i - start) = i" using 2 by simp
      finally show ?thesis using 2 i by simp
    next
      case 3
      have k: "\<not> i - start < stop - start" "\<not> i < start" "i - start - (stop - start) = i - stop"
        "start + (stop - start) = stop"
        using 3 assms by arith+
      have "(take start a @ v @ drop (start + length v) a) ! i =
          drop (start + length v) a ! (i - stop)"
        using i assms lv k by (simp add: nth_append)
      also have "\<dots> = a ! i" using 3 i assms lv k by simp
      finally show ?thesis using 3 i by simp
    qed
  qed
  with np show ?thesis by (simp add: slice_inplace_def)
qed

lemma for_loop_append:
  "for_loop (xs @ ys) body s =
     (case for_loop xs body s of Inl e \<Rightarrow> Inl e | Inr s1 \<Rightarrow> for_loop ys body s1)"
  by (induction xs arbitrary: s) (auto split: sum.splits)

lemma for_loop_upt:
  assumes "\<And>k. k < m \<Longrightarrow> body k (S k) = Inr (S (Suc k))"
  shows "for_loop [0..<m] body (S 0) = Inr (S m)"
  using assms
proof (induction m)
  case 0
  then show ?case by simp
next
  case (Suc m)
  then have "for_loop [0..<m] body (S 0) = Inr (S m)" by simp
  with Suc.prems [of m] show ?case by (simp add: for_loop_append)
qed

lemma chunk_bounds:
  assumes "0 < W" and "c < W"
  shows "chunk_start (n div W) c \<le> chunk_stop W n (n div W) c"
    and "chunk_stop W n (n div W) c \<le> n"
proof -
  have a: "W * (n div W) \<le> n" by simp
  have "c * (n div W) \<le> W * (n div W)" using assms by (simp add: mult_le_mono1)
  with a have b: "c * (n div W) \<le> n" by linarith
  have "(c + 1) * (n div W) \<le> W * (n div W)" using assms by (intro mult_le_mono1) simp
  with a have c: "(c + 1) * (n div W) \<le> n" by linarith
  show "chunk_start (n div W) c \<le> chunk_stop W n (n div W) c"
    using b by (simp add: chunk_start_def chunk_stop_def)
  show "chunk_stop W n (n div W) c \<le> n"
    using c by (simp add: chunk_stop_def)
qed

lemma in_chunk_iff:
  assumes "0 < W" and "c < W" and "i < n"
  shows "chunk_start (n div W) c \<le> i \<and> i < chunk_stop W n (n div W) c
     \<longleftrightarrow> chunk_of W (n div W) i = c"
proof (cases "n div W = 0")
  case True
  with assms show ?thesis
    by (auto simp: chunk_start_def chunk_stop_def chunk_of_def)
next
  case False
  then have pos: "0 < n div W" by simp
  have lo: "c * (n div W) \<le> i \<longleftrightarrow> c \<le> i div (n div W)"
    using pos by (simp add: less_eq_div_iff_mult_less_eq)
  have hi: "i < (c + 1) * (n div W) \<longleftrightarrow> i div (n div W) < c + 1"
    using pos by (simp add: div_less_iff_less_mult)
  show ?thesis
  proof (cases "c + 1 < W")
    case True
    then show ?thesis using lo hi False assms
      by (auto simp: chunk_start_def chunk_stop_def chunk_of_def min_def)
  next
    case False
    with assms have "c = W - 1" by arith
    then show ?thesis using lo \<open>n div W \<noteq> 0\<close> assms
      by (auto simp: chunk_start_def chunk_stop_def chunk_of_def min_def)
  qed
qed

lemma chunk_of_less: "0 < W \<Longrightarrow> chunk_of W cs i < W"
  by (auto simp: chunk_of_def min_def)

section \<open>Ring all-reduce: one transfer\<close>

lemma ring_inverse:
  fixes r W a b :: nat
  assumes "r < W" and "a < W" and "b < W"
  shows "(r + W - a) mod W = b \<longleftrightarrow> a = (r + W - b) mod W"
  using assms by (simp add: ring_back less_imp_le) arith

lemma ring_pred:
  fixes p W t :: nat
  assumes "p < W" and "t < W"
  shows "((p + W - 1) mod W + W - (p + W - t) mod W) mod W = (t + W - 1) mod W"
proof -
  have a: "(p + W - 1) mod W < W" "(p + W - t) mod W < W" using assms by simp_all
  show ?thesis
    unfolding ring_back [OF a(1) less_imp_le [OF a(2)]]
    using assms by (simp add: ring_back less_imp_le) arith
qed

lemma ring_shift:
  fixes p W k :: nat
  assumes "p < W" and "Suc k < W"
  shows "((p + W - 1) mod W + W - k) mod W = (p + W - Suc k) mod W"
proof -
  have a: "(p + W - 1) mod W < W" using assms by simp
  have b: "k \<le> W" using assms by simp
  show ?thesis
    unfolding ring_back [OF a b]
    using assms by (simp add: ring_back less_imp_le)
qed

lemma ring_zero: "(p::nat) < W \<Longrightarrow> (p + W - 0) mod W = p"
  by simp


lemma contributions_0: "p < W \<Longrightarrow> contributions W gs p 0 i = gs ! p ! i"
  by (simp add: contributions_def)

lemma contributions_Suc:
  assumes "p < W" and "Suc m < W"
  shows "contributions W gs p (Suc m) i = gs ! p ! i + contributions W gs ((p + W - 1) mod W) m i"
proof -
  have "contributions W gs p (Suc m) i =
      gs ! ((p + W - 0) mod W) ! i + (\<Sum>k\<le>m. gs ! ((p + W - Suc k) mod W) ! i)"
    unfolding contributions_def by (rule sum.atMost_Suc_shift)
  also have "(\<Sum>k\<le>m. gs ! ((p + W - Suc k) mod W) ! i) =
      (\<Sum>k\<le>m. gs ! (((p + W - 1) mod W + W - k) mod W) ! i)"
  proof (rule sum.cong [OF refl])
    fix k assume "k \<in> {..m}"
    then have "Suc k < W" using assms by simp
    from ring_shift [OF assms(1) this]
    show "gs ! ((p + W - Suc k) mod W) ! i = gs ! (((p + W - 1) mod W + W - k) mod W) ! i"
      by simp
  qed
  finally show ?thesis using assms by (simp add: contributions_def)
qed

lemma contributions_all:
  assumes "r < W"
  shows "contributions W gs r (W - 1) i = (\<Sum>q<W. gs ! q ! i)"
  unfolding contributions_def
proof (rule sum.reindex_bij_witness [where i = "\<lambda>q. (r + W - q) mod W" and j = "\<lambda>k. (r + W - k) mod W"])
  fix k assume "k \<in> {..W - 1}"
  then have k: "k < W" using assms by simp
  have "(r + W - k) mod W < W" using assms by simp
  from ring_inverse [OF assms this k] show "(r + W - (r + W - k) mod W) mod W = k" by simp
  show "(r + W - k) mod W \<in> {..<W}" using assms by simp
  show "gs ! ((r + W - k) mod W) ! i = gs ! ((r + W - k) mod W) ! i" ..
next
  fix q assume "q \<in> {..<W}"
  then have q: "q < W" by simp
  have "(r + W - q) mod W < W" using assms by simp
  from ring_inverse [OF assms this q] show "(r + W - (r + W - q) mod W) mod W = q" by simp
  show "(r + W - q) mod W \<in> {..W - 1}" using assms q
    by (simp add: ring_back less_imp_le) arith
qed

lemma tabulate_simps:
  "length (tabulate W n F) = W"
  "r < W \<Longrightarrow> tabulate W n F ! r = map (F r) [0..<n]"
  by (simp_all add: tabulate_def)

lemma tabulate_cong:
  assumes "\<And>r i. r < W \<Longrightarrow> i < n \<Longrightarrow> F r i = G r i"
  shows "tabulate W n F = tabulate W n G"
  using assms by (simp add: tabulate_def)

lemma tabulate_update:
  assumes "p < W"
  shows "(tabulate W n F)[p := map G [0..<n]] = tabulate W n (\<lambda>r i. if r = p then G i else F r i)"
  using assms by (auto intro!: nth_equalityI simp: tabulate_simps nth_list_update)

lemma recv_from_less: "0 < W \<Longrightarrow> p < W \<Longrightarrow> recv_from W p < W"
  by (simp add: recv_from_eq)

lemma transfer_tabulate:
  assumes "0 < W" and "p < W" and "c < W"
  shows "transfer f W n (n div W) c p (tabulate W n F, k) =
     Inr (tabulate W n (\<lambda>r i. if r = p \<and> chunk_of W (n div W) i = c
                                then f (F p i) (F (recv_from W p) i) else F r i), Suc k)"
proof -
  let ?src = "recv_from W p"
  let ?start = "chunk_start (n div W) c"
  let ?stop = "chunk_stop W n (n div W) c"
  have src: "?src < W" using assms by (simp add: recv_from_less)
  have "slice_inplace f (map (F p) [0..<n]) ?start ?stop (slice (map (F ?src) [0..<n]) ?start ?stop)
      = Inr (map (\<lambda>i. if ?start \<le> i \<and> i < ?stop
                        then f (map (F p) [0..<n] ! i) (map (F ?src) [0..<n] ! i)
                        else map (F p) [0..<n] ! i) [0..<n])"
    using chunk_bounds [OF assms(1,3), of n] by (intro slice_inplace_nth) simp_all
  also have "map (\<lambda>i. if ?start \<le> i \<and> i < ?stop
                        then f (map (F p) [0..<n] ! i) (map (F ?src) [0..<n] ! i)
                        else map (F p) [0..<n] ! i) [0..<n]
      = map (\<lambda>i. if chunk_of W (n div W) i = c then f (F p i) (F ?src i) else F p i) [0..<n]"
    using in_chunk_iff [OF assms(1,3)] by simp
  finally have sl: "slice_inplace f (tabulate W n F ! p) ?start ?stop
        (slice (tabulate W n F ! ?src) ?start ?stop)
      = Inr (map (\<lambda>i. if chunk_of W (n div W) i = c then f (F p i) (F ?src i) else F p i) [0..<n])"
    using assms src by (simp add: tabulate_simps)
  have "transfer f W n (n div W) c p (tabulate W n F, k) =
      Inr ((tabulate W n F)[p := map (\<lambda>i. if chunk_of W (n div W) i = c
                                              then f (F p i) (F ?src i) else F p i) [0..<n]], Suc k)"
    using assms src sl by (simp add: transfer_def tabulate_simps Let_def)
  also have "(tabulate W n F)[p := map (\<lambda>i. if chunk_of W (n div W) i = c
                                              then f (F p i) (F ?src i) else F p i) [0..<n]]
      = tabulate W n (\<lambda>r i. if r = p then (if chunk_of W (n div W) i = c
                                              then f (F p i) (F ?src i) else F p i) else F r i)"
    by (rule tabulate_update [OF assms(2)])
  also have "\<dots> = tabulate W n (\<lambda>r i. if r = p \<and> chunk_of W (n div W) i = c
                                then f (F p i) (F ?src i) else F r i)"
    by (rule tabulate_cong) simp
  finally show ?thesis .
qed

section \<open>Ring all-reduce: the reduce-scatter phase\<close>

lemma scattered_other:
  assumes "p < W" and "t < W" and "chunk_of W cs i \<noteq> (p + W - t) mod W"
  shows "scattered W cs gs (Suc t) p i = scattered W cs gs t p i"
proof -
  have "0 < W" using assms by simp
  then have ci: "chunk_of W cs i < W" by (rule chunk_of_less)
  have "(p + W - chunk_of W cs i) mod W \<noteq> t"
    using ring_inverse [OF assms(1) ci assms(2)] assms(3) by simp
  then show ?thesis by (auto simp: scattered_def Let_def)
qed

lemma scattered_before:
  assumes "p < W" and "t < W" and "chunk_of W cs i = (p + W - t) mod W"
  shows "scattered W cs gs t p i = gs ! p ! i"
    and "scattered W cs gs (Suc t) p i = contributions W gs p (Suc t) i"
proof -
  have "0 < W" using assms by simp
  then have ci: "chunk_of W cs i < W" by (rule chunk_of_less)
  have j: "(p + W - chunk_of W cs i) mod W = t"
    using ring_inverse [OF assms(1) ci assms(2)] assms(3) by simp
  show "scattered W cs gs t p i = gs ! p ! i" using j by (simp add: scattered_def)
  show "scattered W cs gs (Suc t) p i = contributions W gs p (Suc t) i"
    using j by (simp add: scattered_def)
qed

lemma scattered_source:
  assumes "p < W" and "Suc t < W" and "chunk_of W cs i = (p + W - t) mod W"
    and "t' = t \<or> t' = Suc t" and "src = (p + W - 1) mod W"
  shows "scattered W cs gs t' src i = contributions W gs src t i"
proof -
  have t: "t < W" using assms by simp
  have src: "src < W" using assms by simp
  have j: "(src + W - chunk_of W cs i) mod W = (t + W - 1) mod W"
    using ring_pred [OF assms(1) t] assms(3,5) by simp
  show ?thesis
  proof (cases t)
    case 0
    then have "(t + W - 1) mod W = W - 1" using assms by simp
    with j have j': "(src + W - chunk_of W cs i) mod W = W - 1" by simp
    have "\<not> W - 1 < t'" using 0 assms(2,4) by arith
    with j' have "scattered W cs gs t' src i = gs ! src ! i"
      by (simp add: scattered_def)
    with 0 contributions_0 [OF src, of gs i] show ?thesis by simp
  next
    case (Suc u)
    then have "(t + W - 1) mod W = u" using assms by (simp add: ring_back)
    with j have j': "(src + W - chunk_of W cs i) mod W = u" by simp
    have "u < t'" using Suc assms(4) by arith
    with j' have "scattered W cs gs t' src i = contributions W gs src (Suc u) i"
      by (simp add: scattered_def)
    with Suc show ?thesis by simp
  qed
qed

lemma scatter_step:
  assumes "p < W" and "Suc t < W"
  shows "transfer (+) W n (n div W) (scatter_chunk_idx W t p) p
           (tabulate W n (\<lambda>r. scattered W (n div W) gs (if r < p then Suc t else t) r), k)
       = Inr (tabulate W n (\<lambda>r. scattered W (n div W) gs (if r < Suc p then Suc t else t) r), Suc k)"
proof -
  have W: "0 < W" and t: "t < W" "t \<le> W" using assms by simp_all
  define c where "c = scatter_chunk_idx W t p"
  define src where "src = recv_from W p"
  define F where "F = (\<lambda>r. scattered W (n div W) gs (if r < p then Suc t else t) r)"
  have c: "c = (p + W - t) mod W"
    unfolding c_def by (rule scatter_chunk_idx_eq [OF assms(1) t(2)])
  have cW: "c < W" using c W by simp
  have s: "src = (p + W - 1) mod W"
    unfolding src_def by (rule recv_from_eq [OF assms(1) W])
  have "transfer (+) W n (n div W) c p (tabulate W n F, k) =
      Inr (tabulate W n (\<lambda>r i. if r = p \<and> chunk_of W (n div W) i = c
                                then F p i + F src i else F r i), Suc k)"
    unfolding src_def by (rule transfer_tabulate [OF W assms(1) cW])
  also have "tabulate W n (\<lambda>r i. if r = p \<and> chunk_of W (n div W) i = c
                                then F p i + F src i else F r i)
      = tabulate W n (\<lambda>r. scattered W (n div W) gs (if r < Suc p then Suc t else t) r)"
  proof (rule tabulate_cong)
    fix r i assume "r < W" "i < n"
    show "(if r = p \<and> chunk_of W (n div W) i = c then F p i + F src i else F r i)
        = scattered W (n div W) gs (if r < Suc p then Suc t else t) r i"
    proof (cases "r = p")
      case False
      then have "(r < Suc p) = (r < p)" by arith
      with False show ?thesis by (simp add: F_def)
    next
      case True
      show ?thesis
      proof (cases "chunk_of W (n div W) i = c")
        case False
        then have "chunk_of W (n div W) i \<noteq> (p + W - t) mod W" using c by simp
        from scattered_other [OF assms(1) t(1) this] True False show ?thesis
          by (simp add: F_def)
      next
        case eq: True
        then have ch: "chunk_of W (n div W) i = (p + W - t) mod W" using c by simp
        have "F src i = contributions W gs src t i"
          unfolding F_def by (rule scattered_source [OF assms ch _ s]) simp
        moreover have "F p i = gs ! p ! i"
          using scattered_before(1) [OF assms(1) t(1) ch] by (simp add: F_def)
        moreover have "scattered W (n div W) gs (Suc t) p i = contributions W gs p (Suc t) i"
          by (rule scattered_before(2) [OF assms(1) t(1) ch])
        moreover have "contributions W gs p (Suc t) i = gs ! p ! i + contributions W gs src t i"
          unfolding s by (rule contributions_Suc [OF assms])
        ultimately show ?thesis
          using True eq by simp
      qed
    qed
  qed
  finally show ?thesis by (simp add: c_def F_def)
qed

lemma scatter_inner:
  assumes "Suc t < W"
  shows "for_loop [0..<W] (\<lambda>rank. transfer (+) W n (n div W) (scatter_chunk_idx W t rank) rank)
           (tabulate W n (scattered W (n div W) gs t), k)
       = Inr (tabulate W n (scattered W (n div W) gs (Suc t)), k + W)"
proof -
  define S where "S = (\<lambda>p. (tabulate W n (\<lambda>r. scattered W (n div W) gs (if r < p then Suc t else t) r), k + p))"
  have step: "transfer (+) W n (n div W) (scatter_chunk_idx W t p) p (S p) = Inr (S (Suc p))"
    if "p < W" for p
    unfolding S_def using scatter_step [OF that assms, of n gs "k + p"] by simp
  have "for_loop [0..<W] (\<lambda>rank. transfer (+) W n (n div W) (scatter_chunk_idx W t rank) rank) (S 0)
      = Inr (S W)"
    by (rule for_loop_upt) (rule step)
  moreover have "S 0 = (tabulate W n (scattered W (n div W) gs t), k)"
    by (simp add: S_def)
  moreover have "tabulate W n (\<lambda>r. scattered W (n div W) gs (if r < W then Suc t else t) r)
      = tabulate W n (scattered W (n div W) gs (Suc t))"
    by (rule tabulate_cong) simp
  then have "S W = (tabulate W n (scattered W (n div W) gs (Suc t)), k + W)"
    by (simp add: S_def)
  ultimately show ?thesis by simp
qed

lemma reduce_scatter_tabulate:
  "reduce_scatter W n (n div W) (tabulate W n (scattered W (n div W) gs 0), k)
     = Inr (tabulate W n (scattered W (n div W) gs (W - 1)), k + (W - 1) * W)"
proof -
  define S where "S = (\<lambda>t. (tabulate W n (scattered W (n div W) gs t), k + t * W))"
  have "for_loop [0..<W - 1] (\<lambda>step. for_loop [0..<W]
          (\<lambda>rank. transfer (+) W n (n div W) (scatter_chunk_idx W step rank) rank)) (S 0)
      = Inr (S (W - 1))"
  proof (rule for_loop_upt)
    fix t assume "t < W - 1"
    then have "Suc t < W" by arith
    from scatter_inner [OF this, of n gs "k + t * W"]
    show "for_loop [0..<W] (\<lambda>rank. transfer (+) W n (n div W) (scatter_chunk_idx W t rank) rank) (S t)
        = Inr (S (Suc t))"
      by (simp add: S_def add.assoc add.commute)
  qed
  then show ?thesis by (simp add: S_def reduce_scatter_def)
qed

lemma tabulate_nth:
  assumes "length gs = W" and "\<forall>g\<in>set gs. length g = n"
  shows "tabulate W n (\<lambda>r i. gs ! r ! i) = gs"
proof (rule nth_equalityI)
  show "length (tabulate W n (\<lambda>r i. gs ! r ! i)) = length gs"
    using assms by (simp add: tabulate_simps)
next
  fix r assume "r < length (tabulate W n (\<lambda>r i. gs ! r ! i))"
  then have r: "r < W" by (simp add: tabulate_simps)
  then have "length (gs ! r) = n" using assms by simp
  then have "map ((!) (gs ! r)) [0..<n] = gs ! r" using map_nth [of "gs ! r"] by simp
  with r show "tabulate W n (\<lambda>r i. gs ! r ! i) ! r = gs ! r"
    by (simp add: tabulate_simps)
qed

lemma scattered_0: "scattered W cs gs 0 = (\<lambda>r i. gs ! r ! i)"
  by (simp add: scattered_def fun_eq_iff)

section \<open>Ring all-reduce: the all-gather phase\<close>

lemma ring_plus2:
  fixes r W k :: nat
  assumes "k \<le> W"
  shows "(r + 2 + W - k) mod W = ((r + 2) mod W + W - k) mod W"
proof -
  have "r + 2 + W - k = (r + 2) + (W - k)" using assms by arith
  then have "(r + 2 + W - k) mod W = ((r + 2) + (W - k)) mod W" by (simp only:)
  also have "\<dots> = ((r + 2) mod W + (W - k)) mod W" by (simp add: mod_add_left_eq)
  also have "(r + 2) mod W + (W - k) = (r + 2) mod W + W - k" using assms by simp
  finally show ?thesis .
qed

lemma ring_plus2_source:
  fixes p W t :: nat
  assumes "0 < W" and "t \<le> W"
  shows "((p + W - 1) mod W + 2 + W - t) mod W = (p + 2 + W - Suc t) mod W"
proof -
  have "(p + W - 1) mod W + 2 + W - t = (p + W - 1) mod W + (2 + W - t)"
    using assms by arith
  then have "((p + W - 1) mod W + 2 + W - t) mod W = ((p + W - 1) mod W + (2 + W - t)) mod W"
    by (simp only:)
  also have "\<dots> = ((p + W - 1) + (2 + W - t)) mod W" by (simp add: mod_add_left_eq)
  also have "(p + W - 1) + (2 + W - t) = (p + 2 + W - Suc t) + W" using assms by arith
  finally show ?thesis by simp
qed

lemma ring_plus2_reduced:
  fixes r W :: nat
  assumes "r < W" and "2 \<le> W"
  shows "(r + W - (r + 2) mod W) mod W = W - 2"
proof -
  have a: "(r + 2) mod W < W" and b: "W - 2 < W" using assms by simp_all
  have "(r + W - (W - 2)) mod W = (r + 2) mod W"
  proof -
    have "r + W - (W - 2) = r + 2" using assms by arith
    then show ?thesis by simp
  qed
  with ring_inverse [OF assms(1) a b] show ?thesis by simp
qed

lemma ring_plus2_onto:
  fixes r W c :: nat
  assumes "c < W"
  shows "\<exists>k\<le>W - 1. c = (r + 2 + W - k) mod W"
proof -
  have W: "0 < W" using assms by simp
  define r' where "r' = (r + 2) mod W"
  define k where "k = (r' + W - c) mod W"
  have r': "r' < W" and k: "k < W" using W by (simp_all add: r'_def k_def)
  have "(r' + W - k) mod W = c"
    using ring_inverse [OF r' k assms] by (simp add: k_def)
  moreover have "(r + 2 + W - k) mod W = (r' + W - k) mod W"
    unfolding r'_def using k by (intro ring_plus2) simp
  ultimately have "c = (r + 2 + W - k) mod W" by simp
  moreover have "k \<le> W - 1" using k by arith
  ultimately show ?thesis by blast
qed

lemma scattered_reduced:
  assumes "r < W" and "2 \<le> W" and "chunk_of W cs i = (r + 2) mod W"
  shows "scattered W cs gs (W - 1) r i = (\<Sum>q<W. gs ! q ! i)"
proof -
  have j: "(r + W - chunk_of W cs i) mod W = W - 2"
    using ring_plus2_reduced [OF assms(1,2)] assms(3) by simp
  have "W - 2 < W - 1" and "Suc (W - 2) = W - 1" using assms by arith+
  with j have "scattered W cs gs (W - 1) r i = contributions W gs r (W - 1) i"
    by (simp add: scattered_def)
  with contributions_all [OF assms(1), of gs i] show ?thesis by simp
qed

lemma gathered_yes:
  "\<exists>k\<le>t. chunk_of W cs i = (r + 2 + W - k) mod W \<Longrightarrow>
     gathered W cs gs t r i = (\<Sum>q<W. gs ! q ! i)"
  unfolding gathered_def by (rule if_P)

lemma gathered_no:
  "\<not> (\<exists>k\<le>t. chunk_of W cs i = (r + 2 + W - k) mod W) \<Longrightarrow>
     gathered W cs gs t r i = scattered W cs gs (W - 1) r i"
  unfolding gathered_def by (rule if_not_P)

lemma ring_plus2_zero: "((r::nat) + 2 + W - 0) mod W = (r + 2) mod W"
proof -
  have "r + 2 + W - 0 = (r + 2) + W" by simp
  then show ?thesis by (simp only: mod_add_self2)
qed

lemma gathered_0:
  assumes "r < W" and "2 \<le> W"
  shows "gathered W cs gs 0 r i = scattered W cs gs (W - 1) r i"
proof (cases "chunk_of W cs i = (r + 2) mod W")
  case True
  have "0 \<le> (0::nat) \<and> chunk_of W cs i = (r + 2 + W - 0) mod W"
    using True by (simp only: ring_plus2_zero le_refl simp_thms)
  then have "\<exists>k\<le>0. chunk_of W cs i = (r + 2 + W - k) mod W" by (rule exI)
  from gathered_yes [OF this] scattered_reduced [OF assms True, of gs] show ?thesis by simp
next
  case False
  have "\<not> (\<exists>k\<le>0. chunk_of W cs i = (r + 2 + W - k) mod W)"
  proof
    assume "\<exists>k\<le>0. chunk_of W cs i = (r + 2 + W - k) mod W"
    then obtain k where "k \<le> 0" and k: "chunk_of W cs i = (r + 2 + W - k) mod W" by blast
    then have "k = 0" by simp
    with k have "chunk_of W cs i = (r + 2) mod W" by (simp only: ring_plus2_zero)
    with False show False ..
  qed
  from gathered_no [OF this] show ?thesis .
qed

lemma gathered_all:
  assumes "0 < W"
  shows "gathered W cs gs (W - 1) r i = (\<Sum>q<W. gs ! q ! i)"
  by (rule gathered_yes) (rule ring_plus2_onto [OF chunk_of_less [OF assms]])

lemma gather_step:
  assumes "p < W" and "Suc t < W"
  shows "transfer (\<lambda>x y. y) W n (n div W) (gather_chunk_idx W t p) p
           (tabulate W n (\<lambda>r. gathered W (n div W) gs (if r < p then Suc t else t) r), k)
       = Inr (tabulate W n (\<lambda>r. gathered W (n div W) gs (if r < Suc p then Suc t else t) r), Suc k)"
proof -
  have W: "0 < W" and t: "t < W" "t \<le> W" using assms by simp_all
  define c where "c = gather_chunk_idx W t p"
  define src where "src = recv_from W p"
  define F where "F = (\<lambda>r. gathered W (n div W) gs (if r < p then Suc t else t) r)"
  define tot where "tot = (\<lambda>i. \<Sum>q<W. gs ! q ! i)"
  have c: "c = (p + 2 + W - Suc t) mod W"
    unfolding c_def using gather_chunk_idx_eq [OF assms(1) t(2)] by simp
  have cW: "c < W" using c W by simp
  have s: "src = (p + W - 1) mod W"
    unfolding src_def by (rule recv_from_eq [OF assms(1) W])
  have cs: "(src + 2 + W - t) mod W = c"
    unfolding s c by (rule ring_plus2_source [OF W t(2)])
  have "transfer (\<lambda>x y. y) W n (n div W) c p (tabulate W n F, k) =
      Inr (tabulate W n (\<lambda>r i. if r = p \<and> chunk_of W (n div W) i = c
                                then F src i else F r i), Suc k)"
    unfolding src_def by (rule transfer_tabulate [OF W assms(1) cW])
  also have "tabulate W n (\<lambda>r i. if r = p \<and> chunk_of W (n div W) i = c
                                then F src i else F r i)
      = tabulate W n (\<lambda>r. gathered W (n div W) gs (if r < Suc p then Suc t else t) r)"
  proof (rule tabulate_cong)
    fix r i assume "r < W" "i < n"
    show "(if r = p \<and> chunk_of W (n div W) i = c then F src i else F r i)
        = gathered W (n div W) gs (if r < Suc p then Suc t else t) r i"
    proof (cases "r = p")
      case False
      then have "(r < Suc p) = (r < p)" by arith
      with False show ?thesis by (simp add: F_def)
    next
      case True
      show ?thesis
      proof (cases "chunk_of W (n div W) i = c")
        case False
        then have "(\<exists>k\<le>Suc t. chunk_of W (n div W) i = (p + 2 + W - k) mod W)
            = (\<exists>k\<le>t. chunk_of W (n div W) i = (p + 2 + W - k) mod W)"
          unfolding c by (metis le_Suc_eq)
        then have "gathered W (n div W) gs (Suc t) p i = gathered W (n div W) gs t p i"
          unfolding gathered_def by (simp only:)
        with True False show ?thesis by (simp add: F_def)
      next
        case eq: True
        have e1: "\<exists>k\<le>t. chunk_of W (n div W) i = (src + 2 + W - k) mod W"
          using eq cs by (intro exI [of _ t]) (simp only: le_refl simp_thms)
        then have e2: "\<exists>k\<le>Suc t. chunk_of W (n div W) i = (src + 2 + W - k) mod W"
          by (metis le_Suc_eq)
        have "F src i = tot i"
          unfolding F_def tot_def using gathered_yes [OF e1] gathered_yes [OF e2]
          by (cases "src < p") (simp_all only: if_True if_False)
        moreover have "\<exists>k\<le>Suc t. chunk_of W (n div W) i = (p + 2 + W - k) mod W"
          using eq c by (intro exI [of _ "Suc t"]) (simp only: le_refl simp_thms)
        from gathered_yes [OF this] have "gathered W (n div W) gs (Suc t) p i = tot i"
          by (simp only: tot_def)
        ultimately show ?thesis using True eq by simp
      qed
    qed
  qed
  finally show ?thesis by (simp add: c_def F_def)
qed

lemma gather_inner:
  assumes "Suc t < W"
  shows "for_loop [0..<W] (\<lambda>rank. transfer (\<lambda>x y. y) W n (n div W) (gather_chunk_idx W t rank) rank)
           (tabulate W n (gathered W (n div W) gs t), k)
       = Inr (tabulate W n (gathered W (n div W) gs (Suc t)), k + W)"
proof -
  define S where "S = (\<lambda>p. (tabulate W n (\<lambda>r. gathered W (n div W) gs (if r < p then Suc t else t) r), k + p))"
  have step: "transfer (\<lambda>x y. y) W n (n div W) (gather_chunk_idx W t p) p (S p) = Inr (S (Suc p))"
    if "p < W" for p
    unfolding S_def using gather_step [OF that assms, of n gs "k + p"] by simp
  have "for_loop [0..<W] (\<lambda>rank. transfer (\<lambda>x y. y) W n (n div W) (gather_chunk_idx W t rank) rank) (S 0)
      = Inr (S W)"
    by (rule for_loop_upt) (rule step)
  moreover have "S 0 = (tabulate W n (gathered W (n div W) gs t), k)"
    by (simp add: S_def)
  moreover have "tabulate W n (\<lambda>r. gathered W (n div W) gs (if r < W then Suc t else t) r)
      = tabulate W n (gathered W (n div W) gs (Suc t))"
    by (rule tabulate_cong) simp
  then have "S W = (tabulate W n (gathered W (n div W) gs (Suc t)), k + W)"
    by (simp add: S_def)
  ultimately show ?thesis by simp
qed

lemma all_gather_tabulate:
  "all_gather W n (n div W) (tabulate W n (gathered W (n div W) gs 0), k)
     = Inr (tabulate W n (gathered W (n div W) gs (W - 1)), k + (W - 1) * W)"
proof -
  define S where "S = (\<lambda>t. (tabulate W n (gathered W (n div W) gs t), k + t * W))"
  have "for_loop [0..<W - 1] (\<lambda>step. for_loop [0..<W]
          (\<lambda>rank. transfer (\<lambda>x y. y) W n (n div W) (gather_chunk_idx W step rank) rank)) (S 0)
      = Inr (S (W - 1))"
  proof (rule for_loop_upt)
    fix t assume "t < W - 1"
    then have "Suc t < W" by arith
    from gather_inner [OF this, of n gs "k + t * W"]
    show "for_loop [0..<W] (\<lambda>rank. transfer (\<lambda>x y. y) W n (n div W) (gather_chunk_idx W t rank) rank) (S t)
        = Inr (S (Suc t))"
      by (simp add: S_def add.assoc add.commute)
  qed
  then show ?thesis by (simp add: S_def all_gather_def)
qed

section \<open>Ring all-reduce: the whole run\<close>

lemma ring_phases:
  assumes "2 \<le> W" and "length gs = W" and "\<forall>g\<in>set gs. length g = n"
  shows "reduce_scatter W n (n div W) (gs, k) =
           Inr (tabulate W n (scattered W (n div W) gs (W - 1)), k + (W - 1) * W)"
    and "all_gather W n (n div W) (tabulate W n (scattered W (n div W) gs (W - 1)), k') =
           Inr (tabulate W n (\<lambda>r i. \<Sum>q<W. gs ! q ! i), k' + (W - 1) * W)"
proof -
  have W: "0 < W" using assms by simp
  have "tabulate W n (scattered W (n div W) gs 0) = gs"
    unfolding scattered_0 by (rule tabulate_nth [OF assms(2,3)])
  with reduce_scatter_tabulate [of W n gs k]
  show "reduce_scatter W n (n div W) (gs, k) =
      Inr (tabulate W n (scattered W (n div W) gs (W - 1)), k + (W - 1) * W)"
    by simp
  have a: "tabulate W n (scattered W (n div W) gs (W - 1)) = tabulate W n (gathered W (n div W) gs 0)"
    by (rule tabulate_cong) (simp add: gathered_0 [OF _ assms(1)])
  have b: "tabulate W n (gathered W (n div W) gs (W - 1)) = tabulate W n (\<lambda>r i. \<Sum>q<W. gs ! q ! i)"
    by (rule tabulate_cong) (rule gathered_all [OF W])
  from all_gather_tabulate [of W n gs k']
  show "all_gather W n (n div W) (tabulate W n (scattered W (n div W) gs (W - 1)), k') =
      Inr (tabulate W n (\<lambda>r i. \<Sum>q<W. gs ! q ! i), k' + (W - 1) * W)"
    by (simp only: a b)
qed

lemma ring_allreduce_result:
  assumes "2 \<le> W" and "length gs = W" and "\<forall>g\<in>set gs. length g = n"
  shows "example_ring_allreduce W n gs =
     Inr (tabulate W n (scattered W (n div W) gs (W - 1)),
          tabulate W n (\<lambda>r i. \<Sum>q<W. gs ! q ! i),
          (W - 1) * W + (W - 1) * W)"
  using ring_phases(1) [OF assms, of 0] ring_phases(2) [OF assms, of "(W - 1) * W"] assms(1)
  by (simp add: example_ring_allreduce_def)



text \<open>
  C4, as the claim states it: after the reduce-scatter phase rank \<open>r\<close> holds the fully
  reduced chunk \<open>r\<close>. With three ranks and vectors of three elements (chunks of one
  element), rank 0 ends the phase with \<open>101\<close> in chunk 0, the sum of the contributions
  of ranks 0 and 2 only; the sum of all three is \<open>111\<close>.
\<close>

theorem reduce_scatter_counterexample:
  "reduce_scatter 3 3 (3 div 3) ([[1, 2, 3], [10, 20, 30], [100, 200, 300]], 0)
     = Inr ([[101, 2, 333], [111, 22, 30], [100, 222, 330]], 6)
   \<and> chunk_start (3 div 3) 0 = 0 \<and> chunk_stop 3 3 (3 div 3) 0 = 1
   \<and> [[101, 2, 333], [111, 22, 30], [100, 222, 330]] ! 0 ! 0 \<noteq> (1 + 10 + 100 :: real)"
  by code_simp

text \<open>
  C4, amended. At each step of the reduce-scatter phase rank \<open>r\<close> adds to its chunk
  \<open>(r - step) mod W\<close> the same chunk of rank \<open>(r - 1) mod W\<close>; after the \<open>W - 1\<close>
  steps rank \<open>r\<close> holds the sum of all \<open>W\<close> contributions in chunk \<open>(r + 2) mod W\<close>,
  for every \<open>W \<ge> 2\<close>.
\<close>

theorem reduce_scatter_reduced_chunk:
  assumes "2 \<le> W" and "length gradients = W" and "\<forall>g\<in>set gradients. length g = n"
  shows "\<exists>intermediate sent.
       reduce_scatter W n (n div W) (gradients, 0) = Inr (intermediate, sent)
     \<and> (\<forall>r<W. \<forall>i<n.
           chunk_start (n div W) ((r + 2) mod W) \<le> i \<and> i < chunk_stop W n (n div W) ((r + 2) mod W)
           \<longrightarrow> intermediate ! r ! i = (\<Sum>q<W. gradients ! q ! i))
     \<and> (\<forall>r<W. \<forall>step<W - 1.
           int (scatter_chunk_idx W step r) = (int r - int step) mod int W
         \<and> int (recv_from W r) = (int r - 1) mod int W)"
proof -
  have W: "0 < W" using assms by simp
  let ?inter = "tabulate W n (scattered W (n div W) gradients (W - 1))"
  have run: "reduce_scatter W n (n div W) (gradients, 0) = Inr (?inter, 0 + (W - 1) * W)"
    by (rule ring_phases(1) [OF assms])
  have red: "?inter ! r ! i = (\<Sum>q<W. gradients ! q ! i)"
    if "r < W" "i < n" and b: "chunk_start (n div W) ((r + 2) mod W) \<le> i \<and>
        i < chunk_stop W n (n div W) ((r + 2) mod W)" for r i
  proof -
    have "(r + 2) mod W < W" using W by simp
    from in_chunk_iff [OF W this that(2)] b
    have "chunk_of W (n div W) i = (r + 2) mod W" by simp
    from scattered_reduced [OF that(1) assms(1) this, of gradients]
    show ?thesis using that(1,2) by (simp add: tabulate_simps)
  qed
  have idx: "int (scatter_chunk_idx W step r) = (int r - int step) mod int W
      \<and> int (recv_from W r) = (int r - 1) mod int W" for r step
    using W by (simp add: scatter_chunk_idx_def recv_from_def)
  from run red idx show ?thesis by blast
qed

theorem reduce_scatter_reduced_chunk_witness:
  "reduce_scatter 3 3 (3 div 3) ([[1, 2, 3], [10, 20, 30], [100, 200, 300]], 0)
     = Inr ([[101, 2, 333], [111, 22, 30], [100, 222, 330]], 6)
   \<and> chunk_start (3 div 3) ((0 + 2) mod 3) = 2 \<and> chunk_stop 3 3 (3 div 3) ((0 + 2) mod 3) = 3
   \<and> [[101, 2, 333], [111, 22, 30], [100, 222, 330]] ! 0 ! 2
       = (\<Sum>q<3. [[1, 2, 3], [10, 20, 30], [100, 200, 300 :: real]] ! q ! 2)"
proof -
  have ev: "reduce_scatter 3 3 (3 div 3) ([[1, 2, 3], [10, 20, 30], [100, 200, 300]], 0)
     = Inr ([[101, 2, 333], [111, 22, 30], [100, 222, 330]], 6)"
    and b: "chunk_start (3 div 3) ((0 + 2) mod 3) = 2" "chunk_stop 3 3 (3 div 3) ((0 + 2) mod 3) = 3"
    by code_simp+
  from reduce_scatter_reduced_chunk [of 3 "[[1, 2, 3], [10, 20, 30], [100, 200, 300]]" 3]
  obtain intermediate sent where
    run: "reduce_scatter 3 3 (3 div 3) ([[1, 2, 3], [10, 20, 30], [100, 200, 300]], 0)
      = Inr (intermediate, sent)"
    and red: "\<forall>r<3. \<forall>i<3.
           chunk_start (3 div 3) ((r + 2) mod 3) \<le> i \<and> i < chunk_stop 3 3 (3 div 3) ((r + 2) mod 3)
           \<longrightarrow> intermediate ! r ! i = (\<Sum>q<3. [[1, 2, 3], [10, 20, 30], [100, 200, 300]] ! q ! i)"
    by auto
  from run ev have "intermediate = [[101, 2, 333], [111, 22, 30], [100, 222, 330]]" by simp
  moreover from red b have "intermediate ! 0 ! 2
      = (\<Sum>q<3. [[1, 2, 3], [10, 20, 30], [100, 200, 300]] ! q ! 2)"
    by simp
  ultimately show ?thesis using ev b by simp
qed

section \<open>The gather-based all-reduce\<close>

lemma set_queue_same: "queues sim r = Some q \<Longrightarrow> set_queue r q sim = sim"
  by (simp add: set_queue_def fun_upd_idem)

lemma all_reduce_sum_suspends:
  assumes "r \<noteq> 0" and "queues sim 0 = Some q0" and "queues sim r = Some []"
  shows "all_reduce_sum limit v r sim = Blocks (set_queue 0 (q0 @ [(r, v)]) sim)"
proof -
  have "queues (set_queue 0 (q0 @ [(r, v)]) sim) r = Some []" using assms by simp
  then have "receive limit r 0 (set_queue 0 (q0 @ [(r, v)]) sim)
      = Blocks (set_queue 0 (q0 @ [(r, v)]) sim)"
    by (simp add: receive.simps [of limit])
  with assms show ?thesis by (simp add: all_reduce_sum_def send_existing)
qed

lemma gather_loop_returns:
  assumes "queues sim 0 = Some Q" and "mset Q = mset (map (\<lambda>r. (r, local_data r)) rs)"
    and "\<forall>r\<in>set rs. r \<noteq> -1 \<and> length (local_data r) = length tot"
    and "length Q \<le> Suc limit"
  shows "gather_loop limit rs tot sim =
     Returns (map (\<lambda>i. tot ! i + (\<Sum>r\<leftarrow>rs. local_data r ! i)) [0..<length tot]) (set_queue 0 [] sim)"
  using assms
proof (induction rs arbitrary: tot Q sim)
  case Nil
  then have "Q = []" by simp
  with Nil show ?case by (simp add: set_queue_same map_nth)
next
  case (Cons r rs)
  let ?f = "\<lambda>r. (r, local_data r)"
  have "?f r \<in># mset Q" using Cons.prems(2) by simp
  then have "\<exists>m\<in>set Q. fst m = r" by force
  from split_list_first_prop [OF this] obtain pre m post where
    Q: "Q = pre @ m # post" and m: "fst m = r" and pre: "\<forall>y\<in>set pre. fst y \<noteq> r"
    by blast
  have "m \<in># mset (map ?f (r # rs))" using Q Cons.prems(2) by (metis in_set_conv_decomp set_mset_mset)
  then have "m \<in> ?f ` set (r # rs)" by simp
  with m have md: "m = (r, local_data r)" by auto
  have nin: "r \<notin> fst ` set pre" using pre by auto
  have r: "r \<noteq> -1" and len: "length (local_data r) = length tot" using Cons.prems(3) by simp_all
  have lp: "length pre \<le> limit" using Cons.prems(4) Q by simp
  let ?sim1 = "set_queue 0 (post @ pre) sim"
  let ?tot1 = "map2 (+) tot (local_data r)"
  have rcv: "receive limit 0 r sim = Returns (local_data r) ?sim1"
    using receive_split [of sim 0 pre r "local_data r" post limit] Cons.prems(1) Q md nin r lp
    by simp
  have add: "np_iadd tot (local_data r) = Inr ?tot1"
    using len by (simp add: np_iadd_def np_inplace_def)
  have q1: "queues ?sim1 0 = Some (post @ pre)" by simp
  have ms: "mset (post @ pre) = mset (map ?f rs)"
    using Cons.prems(2) Q md by (simp add: add.commute)
  have l1: "\<forall>x\<in>set rs. x \<noteq> -1 \<and> length (local_data x) = length ?tot1"
    using Cons.prems(3) len by simp
  have l2: "length (post @ pre) \<le> Suc limit" using Cons.prems(4) Q by simp
  have "gather_loop limit (r # rs) tot sim = gather_loop limit rs ?tot1 ?sim1"
    using rcv add by simp
  also have "\<dots> = Returns (map (\<lambda>i. ?tot1 ! i + (\<Sum>r\<leftarrow>rs. local_data r ! i)) [0..<length ?tot1])
      (set_queue 0 [] ?sim1)"
    by (rule Cons.IH [OF q1 ms l1 l2])
  also have "map (\<lambda>i. ?tot1 ! i + (\<Sum>r\<leftarrow>rs. local_data r ! i)) [0..<length ?tot1]
      = map (\<lambda>i. tot ! i + (\<Sum>r\<leftarrow>r # rs. local_data r ! i)) [0..<length tot]"
    using len by (auto simp: add.assoc)
  finally show ?case by simp
qed

lemma scatter_loop_returns:
  assumes "distinct rs" and "\<forall>r\<in>set rs. queues sim r = Some []"
  shows "\<exists>sim'. scatter_loop rs tot sim = Returns () sim'
     \<and> (\<forall>r. queues sim' r = (if r \<in> set rs then Some [(0, tot)] else queues sim r))"
  using assms
proof (induction rs arbitrary: sim)
  case Nil
  then show ?case by simp
next
  case (Cons r rs)
  let ?sim1 = "set_queue r [(0, tot)] sim"
  have s: "send tot 0 r sim = Returns () ?sim1"
    using Cons.prems send_existing [of sim r "[]" tot 0] by simp
  have "\<forall>x\<in>set rs. queues ?sim1 x = Some []" using Cons.prems by auto
  with Cons.prems Cons.IH [of ?sim1] obtain sim' where
    a: "scatter_loop rs tot ?sim1 = Returns () sim'"
    and b: "\<forall>x. queues sim' x = (if x \<in> set rs then Some [(0, tot)] else queues ?sim1 x)"
    by auto
  from a s have "scatter_loop (r # rs) tot sim = Returns () sim'" by simp
  moreover from b Cons.prems have
    "\<forall>x. queues sim' x = (if x \<in> set (r # rs) then Some [(0, tot)] else queues sim x)"
    by auto
  ultimately show ?case by blast
qed

section \<open>All-reduce correctness\<close>

lemma upto_int: "[0..int W - 1] = map int [0..<W]"
proof (induction W)
  case 0
  then show ?case by simp
next
  case (Suc W)
  have "[0..int (Suc W) - 1] = [0..int W - 1] @ [int W]"
    using upto_rec2 [of 0 "int W"] by simp
  with Suc show ?case by simp
qed

lemma sum_list_nth_ranks:
  assumes "length gs = W"
  shows "(\<Sum>q<W. gs ! q ! i) = (\<Sum>g\<leftarrow>gs. g ! i)"
proof -
  have "(\<Sum>g\<leftarrow>gs. g ! i) = (\<Sum>q = 0..<length (map (\<lambda>g. g ! i) gs). map (\<lambda>g. g ! i) gs ! q)"
    by (rule sum_list_sum_nth)
  also have "\<dots> = (\<Sum>q<W. gs ! q ! i)"
    using assms by (intro sum.cong) (auto simp: atLeast0LessThan)
  finally show ?thesis by simp
qed


text \<open>
  A call of \<open>all_reduce_sum\<close> by another rank than the root, on a simulator where only
  the root's mailbox has been written: the vector goes to the tail of the root's mailbox
  and the call is suspended in \<open>receive(rank, 0)\<close>. The mailbox of the root after such
  calls holds one message for each of them, in the order of the calls.
\<close>

lemma all_reduce_sum_non_root:
  assumes "0 < r" and "r < W"
  shows "all_reduce_sum limit v r (set_queue 0 q (DistributedSimulator_init W))
      = Blocks (set_queue 0 (q @ [(r, v)]) (DistributedSimulator_init W))"
  using assms
    all_reduce_sum_suspends [of r "set_queue 0 q (DistributedSimulator_init W)" q limit v]
  by (simp add: DistributedSimulator_init_def)

text \<open>
  \<open>receive(rank, X)\<close> on a mailbox that is not empty and holds no message from \<open>X\<close> moves
  every message it reads to the tail and calls itself again: whatever the number of
  nested calls allowed, it ends in a \<open>RecursionError\<close>.
\<close>

lemma receive_spins:
  assumes "queues sim rank = Some q" and "q \<noteq> []" and "X \<noteq> -1" and "X \<notin> fst ` set q"
  shows "\<exists>q'. receive limit rank X sim = Raises RecursionError (set_queue rank q' sim)"
  using assms
proof (induction limit arbitrary: sim q)
  case 0
  then obtain m q1 where q: "q = m # q1" by (cases q) auto
  obtain a b where m: "m = (a, b)" by (cases m)
  from 0 q m have "receive 0 rank X sim = Raises RecursionError (set_queue rank (q1 @ [(a, b)]) sim)"
    by (auto simp: receive.simps [of 0] put_def)
  then show ?case by blast
next
  case (Suc l)
  then obtain m q1 where q: "q = m # q1" by (cases q) auto
  obtain a b where m: "m = (a, b)" by (cases m)
  let ?sim2 = "set_queue rank (q1 @ [(a, b)]) sim"
  have q2: "queues ?sim2 rank = Some (q1 @ [(a, b)])" by simp
  have ne: "q1 @ [(a, b)] \<noteq> []" by simp
  have nin: "X \<notin> fst ` set (q1 @ [(a, b)])" using Suc.prems q m by auto
  have "receive (Suc l) rank X sim = receive l rank X ?sim2"
    using Suc.prems q m by (auto simp: receive.simps [of "Suc l" rank X sim] put_def)
  with Suc.IH [OF q2 ne \<open>X \<noteq> -1\<close> nin] show ?case by auto
qed

lemma receive_lone_other:
  assumes "queues sim rank = Some [(Y, d)]" and "X \<noteq> -1" and "Y \<noteq> X"
  shows "receive limit rank X sim = Raises RecursionError (set_queue rank [(Y, d)] sim)"
  using assms
proof (induction limit arbitrary: sim)
  case 0
  then show ?case by (simp add: receive.simps [of 0] put_def)
next
  case (Suc l)
  let ?sim2 = "set_queue rank [(Y, d)] sim"
  have "receive (Suc l) rank X sim = receive l rank X ?sim2"
    using Suc.prems by (simp add: receive.simps [of "Suc l" rank X sim] put_def)
  moreover have "queues ?sim2 rank = Some [(Y, d)]" by simp
  ultimately show ?case using Suc.IH [of ?sim2] Suc.prems by simp
qed

text \<open>
  So the root's \<open>all_reduce_sum\<close>, called when some ranks have sent their vector and rank
  1 has not, raises for every recursion limit: its first \<open>receive(0, 1)\<close> never finds a
  message from rank 1.
\<close>

lemma root_raises_without_rank_1:
  assumes "2 \<le> world_size sim" and "queues sim 0 = Some q" and "q \<noteq> []" and "1 \<notin> fst ` set q"
  shows "\<exists>q'. all_reduce_sum limit v 0 sim = Raises RecursionError (set_queue 0 q' sim)"
proof -
  from receive_spins [OF assms(2,3) _ assms(4), of limit] obtain q' where
    "receive limit 0 1 sim = Raises RecursionError (set_queue 0 q' sim)" by auto
  with assms(1) have "all_reduce_sum limit v 0 sim = Raises RecursionError (set_queue 0 q' sim)"
    by (simp add: all_reduce_sum_def upto_from_1)
  then show ?thesis ..
qed

text \<open>
  The root's \<open>all_reduce_sum\<close>, called when its mailbox holds one message from each other
  rank (in any order) and the mailboxes of the other ranks are empty: it returns the
  elementwise sum and leaves it, as the one message from rank 0, in the mailbox of every
  other rank. \<open>limit\<close> is the number of nested calls of \<open>receive\<close> the interpreter still
  allows; skipping the messages of the other \<open>W - 2\<close> ranks takes at most that many.
\<close>

lemma all_reduce_sum_root:
  assumes W: "2 \<le> W" and ws: "world_size sim = W" and q: "queues sim 0 = Some Q"
    and ms: "mset Q = mset (map (\<lambda>r. (r, local_data r)) [1..W - 1])"
    and empty: "\<forall>r\<in>{1..W - 1}. queues sim r = Some []"
    and len: "\<forall>r\<in>{0..W - 1}. length (local_data r) = n"
    and lim: "W \<le> int limit + 2"
  shows "\<exists>sim'. all_reduce_sum limit (local_data 0) 0 sim =
           Returns (map (\<lambda>i. \<Sum>q\<leftarrow>[0..W - 1]. local_data q ! i) [0..<n]) sim'
       \<and> (\<forall>r\<in>{1..W - 1}. queues sim' r =
             Some [(0, map (\<lambda>i. \<Sum>q\<leftarrow>[0..W - 1]. local_data q ! i) [0..<n])])"
proof -
  let ?rs = "[1..W - 1]"
  define tot where "tot = map (\<lambda>i. \<Sum>q\<leftarrow>[0..W - 1]. local_data q ! i) [0..<n]"
  have l0: "length (local_data 0) = n" using len W by simp
  have l1: "\<forall>r\<in>set ?rs. r \<noteq> -1 \<and> length (local_data r) = length (local_data 0)"
    using len l0 by auto
  have "length Q = length ?rs" using ms by (metis length_map size_mset)
  then have l2: "length Q \<le> Suc limit" using lim W by simp
  have tot: "map (\<lambda>i. local_data 0 ! i + (\<Sum>r\<leftarrow>?rs. local_data r ! i)) [0..<length (local_data 0)] = tot"
  proof -
    have "[0..W - 1] = 0 # ?rs" using W by (simp add: upto_rec1)
    then show ?thesis by (simp add: tot_def l0)
  qed
  have gather: "gather_loop limit ?rs (local_data 0) sim = Returns tot (set_queue 0 [] sim)"
    using gather_loop_returns [OF q ms l1 l2] tot by simp
  have "\<forall>r\<in>set ?rs. queues (set_queue 0 [] sim) r = Some []"
    using empty by auto
  from scatter_loop_returns [OF distinct_upto this, of tot] obtain sim2 where
    scatter: "scatter_loop ?rs tot (set_queue 0 [] sim) = Returns () sim2"
    and q2: "\<forall>r. queues sim2 r = (if r \<in> set ?rs then Some [(0, tot)]
        else queues (set_queue 0 [] sim) r)"
    by blast
  have root: "all_reduce_sum limit (local_data 0) 0 sim = Returns tot sim2"
    unfolding all_reduce_sum_def ws using gather scatter by simp
  have "\<forall>r\<in>{1..W - 1}. queues sim2 r = Some [(0, tot)]" using q2 by simp
  with root show ?thesis unfolding tot_def by blast
qed

lemma receive_broadcast:
  assumes "queues sim r = Some [(0, tot)]"
  shows "receive limit r 0 sim = Returns tot (set_queue r [] sim)"
  using assms by (simp add: receive.simps [of limit])

text \<open>
  C1, as the claim states it: for every world size and equal-length vectors
  \<open>all_reduce_sum\<close> leaves the elementwise sum at every rank. The claim names no order of
  the calls, and the root's call depends on it. With three ranks, rank 2 calls
  \<open>all_reduce_sum\<close> first: its vector goes to the root's mailbox and the call is suspended
  in \<open>receive(2, 0)\<close>. The root calls next, before rank 1: its \<open>receive(0, 1)\<close> reads the
  message of rank 2, puts it back and calls itself until the recursion limit (here five
  nested calls; \<open>receive_lone_other\<close> gives the same for every limit). The root raises
  \<open>RecursionError\<close>, no rank holds the sum, and the simulator is as before the call.
\<close>

theorem all_reduce_sum_root_first_counterexample:
  "all_reduce_sum 5 [100] 2 (DistributedSimulator_init 3)
     = Blocks (set_queue 0 [(2, [100])] (DistributedSimulator_init 3))
   \<and> all_reduce_sum 5 [1] 0 (set_queue 0 [(2, [100])] (DistributedSimulator_init 3))
     = Raises RecursionError (set_queue 0 [(2, [100])] (DistributedSimulator_init 3))"
proof
  show "all_reduce_sum 5 [100] 2 (DistributedSimulator_init 3)
     = Blocks (set_queue 0 [(2, [100])] (DistributedSimulator_init 3))"
    using all_reduce_sum_suspends [of 2 "DistributedSimulator_init 3" "[]" 5 "[100]"]
    by (simp add: DistributedSimulator_init_def)
next
  let ?sim = "set_queue 0 [(2, [100::real])] (DistributedSimulator_init 3)"
  have "receive 5 0 1 ?sim = Raises RecursionError (set_queue 0 [(2, [100])] ?sim)"
    by (rule receive_lone_other) simp_all
  then have "receive 5 0 1 ?sim = Raises RecursionError ?sim" by simp
  moreover have "world_size ?sim = 3" by (simp add: DistributedSimulator_init_def)
  ultimately show "all_reduce_sum 5 [1] 0 ?sim = Raises RecursionError ?sim"
    by (simp add: all_reduce_sum_def upto_rec1)
qed

text \<open>
  C1, amended: over exact real arithmetic, for every world size \<open>W \<ge> 2\<close> and \<open>W\<close> vectors
  of one length \<open>n\<close>, with \<open>true_sum\<close> their elementwise sum:
  \<^item> the ring all-reduce leaves \<open>true_sum\<close> at every rank, for every \<open>n\<close>, also one that
    \<open>W\<close> does not divide (the last chunk runs to the end of the vector);
  \<^item> \<open>all_reduce_sum\<close> of the root, called once every other rank has sent its vector
    (the root's mailbox holds one message from each other rank, in any order, the
    mailboxes of the other ranks are empty, and the interpreter allows \<open>W - 2\<close> nested
    calls of \<open>receive\<close>), returns \<open>true_sum\<close> and leaves a simulator in which
    \<open>receive(rank, 0)\<close>, the call every other rank is suspended in, returns \<open>true_sum\<close>;
  \<^item> \<open>sum(gradients)\<close>, which the example compares with, is \<open>true_sum\<close>.
  Nothing is stated for floating-point arithmetic.
\<close>

theorem all_reduce_sum_after_sends:
  assumes "2 \<le> W" and "length gradients = W" and "\<forall>g\<in>set gradients. length g = n"
    and "world_size sim = int W" and "queues sim 0 = Some Q"
    and "mset Q = mset (map (\<lambda>r. (r, gradients ! nat r)) [1..int W - 1])"
    and "\<forall>r\<in>{1..int W - 1}. queues sim r = Some []"
    and "W \<le> limit + 2"
  shows "(\<exists>intermediate sent. example_ring_allreduce W n gradients =
            Inr (intermediate, replicate W (map (\<lambda>i. \<Sum>g\<leftarrow>gradients. g ! i) [0..<n]), sent))
       \<and> (\<exists>sim'. all_reduce_sum limit (gradients ! 0) 0 sim =
                   Returns (map (\<lambda>i. \<Sum>g\<leftarrow>gradients. g ! i) [0..<n]) sim'
              \<and> (\<forall>r\<in>{1..int W - 1}. receive limit r 0 sim' =
                   Returns (map (\<lambda>i. \<Sum>g\<leftarrow>gradients. g ! i) [0..<n]) (set_queue r [] sim')))
       \<and> py_sum None gradients = Inr (Some (map (\<lambda>i. \<Sum>g\<leftarrow>gradients. g ! i) [0..<n]))"
proof (intro conjI)
  have "tabulate W n (\<lambda>r i. \<Sum>q<W. gradients ! q ! i)
      = replicate W (map (\<lambda>i. \<Sum>g\<leftarrow>gradients. g ! i) [0..<n])"
    by (simp add: tabulate_def sum_list_nth_ranks [OF assms(2)] map_replicate_const)
  with ring_allreduce_result [OF assms(1-3)]
  show "\<exists>intermediate sent. example_ring_allreduce W n gradients =
      Inr (intermediate, replicate W (map (\<lambda>i. \<Sum>g\<leftarrow>gradients. g ! i) [0..<n]), sent)"
    by simp
next
  define tot where "tot = map (\<lambda>i. \<Sum>g\<leftarrow>gradients. g ! i) [0..<n]"
  have len: "\<forall>r\<in>{0..int W - 1}. length (gradients ! nat r) = n"
    using assms(2,3) by auto
  have eq: "map (\<lambda>q. gradients ! nat q) [0..int W - 1] = gradients"
    using map_nth [of gradients] assms(2) by (simp add: upto_int comp_def)
  have "(\<Sum>q\<leftarrow>[0..int W - 1]. gradients ! nat q ! i)
      = (\<Sum>g\<leftarrow>map (\<lambda>q. gradients ! nat q) [0..int W - 1]. g ! i)" for i
    by (simp add: comp_def)
  then have sums: "(\<Sum>q\<leftarrow>[0..int W - 1]. gradients ! nat q ! i) = (\<Sum>g\<leftarrow>gradients. g ! i)" for i
    by (simp only: eq)
  have W: "2 \<le> int W" and lim: "int W \<le> int limit + 2" using assms(1,8) by simp_all
  have z: "gradients ! nat 0 = gradients ! 0" by simp
  from all_reduce_sum_root [OF W assms(4,5,6,7) len lim]
  obtain sim' where
    root: "all_reduce_sum limit (gradients ! 0) 0 sim = Returns tot sim'"
    and bc: "\<forall>r\<in>{1..int W - 1}. queues sim' r = Some [(0, tot)]"
    unfolding sums z tot_def by blast
  have "\<forall>r\<in>{1..int W - 1}. receive limit r 0 sim' = Returns tot (set_queue r [] sim')"
    using bc by (auto intro: receive_broadcast)
  with root show "\<exists>sim'. all_reduce_sum limit (gradients ! 0) 0 sim =
                   Returns (map (\<lambda>i. \<Sum>g\<leftarrow>gradients. g ! i) [0..<n]) sim'
              \<and> (\<forall>r\<in>{1..int W - 1}. receive limit r 0 sim' =
                   Returns (map (\<lambda>i. \<Sum>g\<leftarrow>gradients. g ! i) [0..<n]) (set_queue r [] sim'))"
    unfolding tot_def by blast
next
  have "gradients \<noteq> []" using assms(1,2) by auto
  from py_sum_start [OF this assms(3)]
  show "py_sum None gradients = Inr (Some (map (\<lambda>i. \<Sum>g\<leftarrow>gradients. g ! i) [0..<n]))" .
qed

theorem all_reduce_sum_after_sends_witness:
  "(\<exists>intermediate sent.
      example_ring_allreduce 3 4 [[1, 2, 3, 4], [10, 20, 30, 40], [100, 200, 300, 400]]
        = Inr (intermediate, replicate 3 [111, 222, 333, 444], sent))
   \<and> (\<exists>sim'. all_reduce_sum 1 [1, 2, 3, 4] 0
                (set_queue 0 [(2, [100, 200, 300, 400]), (1, [10, 20, 30, 40])]
                   (DistributedSimulator_init 3))
              = Returns [111, 222, 333, 444] sim'
         \<and> receive 1 1 0 sim' = Returns [111, 222, 333, 444] (set_queue 1 [] sim')
         \<and> receive 1 2 0 sim' = Returns [111, 222, 333, 444] (set_queue 2 [] sim'))
   \<and> py_sum None [[1, 2, 3, 4], [10, 20, 30, 40], [100, 200, 300, 400]]
       = Inr (Some [111, 222, 333, 444])"
proof -
  let ?gs = "[[1, 2, 3, 4], [10, 20, 30, 40], [100, 200, 300, 400 :: real]]"
  let ?Q = "[(2, [100, 200, 300, 400]), (1, [10, 20, 30, 40 :: real])]"
  let ?sim = "set_queue 0 ?Q (DistributedSimulator_init 3)"
  have s: "map (\<lambda>i. \<Sum>g\<leftarrow>?gs. g ! i) [0..<4] = [111, 222, 333, 444]"
    by code_simp
  have u: "[1..int 3 - 1] = [1, 2]" by (simp add: upto_rec1)
  have r: "{1..int 3 - 1} = {1, 2}" by auto
  have h1: "\<forall>g\<in>set ?gs. length g = 4" by simp
  have h2: "world_size ?sim = int 3" by (simp add: DistributedSimulator_init_def)
  have h3: "queues ?sim 0 = Some ?Q" by simp
  have h4: "mset ?Q = mset (map (\<lambda>r. (r, ?gs ! nat r)) [1..int 3 - 1])"
    unfolding u by simp
  have h5: "\<forall>r\<in>{1..int 3 - 1}. queues ?sim r = Some []"
    unfolding r by (simp add: DistributedSimulator_init_def)
  from all_reduce_sum_after_sends [of 3 ?gs 4 ?sim ?Q 1, OF _ _ h1 h2 h3 h4 h5, unfolded s r]
  show ?thesis by simp
qed

end
